theory Spec2Isabelle
  imports Main "HOL-Library.Char_ord" "HOL-Library.Multiset" "HOL-Library.Monad_Syntax"
begin

section \<open>Data model\<close>

text \<open>
  The chunk record of \<^verbatim>\<open>a_sentence_chunker.h\<close>: two \<^verbatim>\<open>size_t\<close> fields. The field
  \<^verbatim>\<open>length\<close> is called \<open>length_c\<close> here, because \<open>length\<close> is the list length of HOL.
\<close>

record a_sentence_chunk_t =
  start_offset :: nat
  length_c :: nat

text \<open>
  \<^verbatim>\<open>size_t\<close> is taken as the 64-bit unsigned type of an LP64 platform and is modelled by
  \<open>nat\<close> with the wrap-around written out. An index that is incremented under a guard
  \<^verbatim>\<open>i < len\<close> cannot wrap and is a plain addition; every other addition and every
  subtraction of the source goes through \<open>sz_add\<close> and \<open>sz_sub\<close> (operands below
  \<open>SIZE_MOD\<close>).
\<close>

definition SIZE_MOD :: nat where
  "SIZE_MOD = 2 ^ 64"

definition sz_add :: "nat \<Rightarrow> nat \<Rightarrow> nat" where
  "sz_add a b = (a + b) mod SIZE_MOD"

definition sz_sub :: "nat \<Rightarrow> nat \<Rightarrow> nat" where
  "sz_sub a b = (a + SIZE_MOD - b) mod SIZE_MOD"

text \<open>
  \<^verbatim>\<open>(int)i\<close> for a \<^verbatim>\<open>size_t\<close> i, with a 32-bit two's complement \<^verbatim>\<open>int\<close>: the value is
  reduced modulo \<open>2^32\<close> into the signed range.
\<close>

definition int_cast :: "nat \<Rightarrow> int" where
  "int_cast n = (let m = int (n mod 2 ^ 32) in if m < 2 ^ 31 then m else m - 2 ^ 32)"

text \<open>
  Arithmetic on \<^verbatim>\<open>int\<close> is that of the compiled code: a result outside the range of the
  type wraps around modulo \<open>2^32\<close> (two's complement). \<open>int_wrap\<close> reduces a mathematical
  result into the range from \<open>- 2^31\<close> to \<open>2^31 - 1\<close>.
\<close>

definition int_wrap :: "int \<Rightarrow> int" where
  "int_wrap x = (x + 2 ^ 31) mod 2 ^ 32 - 2 ^ 31"

text \<open>
  The text pointer is modelled as the memory it points into: \<open>text k\<close> is the byte
  \<^verbatim>\<open>text[k]\<close>. A NUL-terminated buffer holding the bytes \<open>s\<close> is \<open>cstr s\<close>; \<open>strlen s\<close>
  is the number of bytes before the first NUL.
\<close>

type_synonym text_ptr = "nat \<Rightarrow> char"

definition cstr :: "string \<Rightarrow> text_ptr" where
  "cstr s k = (if k < length s then s ! k else CHR 0x00)"

definition strlen :: "string \<Rightarrow> nat" where
  "strlen s = length (takeWhile (\<lambda>c. c \<noteq> CHR 0x00) s)"

section \<open>Character classes\<close>

text \<open>
  \<^verbatim>\<open>isdigit\<close>, \<^verbatim>\<open>isupper\<close>, \<^verbatim>\<open>islower\<close>, \<^verbatim>\<open>isspace\<close> and \<^verbatim>\<open>tolower\<close> are those of the C
  library in the "C" locale (ASCII); the others are the helpers of
  \<^verbatim>\<open>a_sentence_chunker.c\<close>.
\<close>

definition isdigit :: "char \<Rightarrow> bool" where
  "isdigit c = (CHR ''0'' \<le> c \<and> c \<le> CHR ''9'')"

definition isupper :: "char \<Rightarrow> bool" where
  "isupper c = (CHR ''A'' \<le> c \<and> c \<le> CHR ''Z'')"

definition islower :: "char \<Rightarrow> bool" where
  "islower c = (CHR ''a'' \<le> c \<and> c \<le> CHR ''z'')"

definition isspace :: "char \<Rightarrow> bool" where
  "isspace c = (c = CHR '' '' \<or> c = CHR 0x09 \<or> c = CHR 0x0A \<or> c = CHR 0x0B
                \<or> c = CHR 0x0C \<or> c = CHR 0x0D)"

text \<open>
  \<^verbatim>\<open>tolower\<close> adds 32 to an upper-case letter. For the codes of \<^verbatim>\<open>A\<close> to \<^verbatim>\<open>Z\<close> (65 to 90) the
  bit of value 32 is clear, so adding 32 is setting that bit, the sixth bit of \<open>Char\<close>.
\<close>

definition tolower :: "char \<Rightarrow> char" where
  "tolower c =
     (if isupper c
      then (case c of Char b0 b1 b2 b3 b4 b5 b6 b7 \<Rightarrow> Char b0 b1 b2 b3 b4 True b6 b7)
      else c)"

definition is_sentence_punct :: "char \<Rightarrow> bool" where
  "is_sentence_punct c = (c = CHR ''.'' \<or> c = CHR ''?'' \<or> c = CHR ''!'')"

definition ABBREVS :: "string list" where
  "ABBREVS = [''Mr'', ''Mrs'', ''Ms'', ''Dr'', ''St'', ''etc'', ''i.e'', ''e.g'', ''vs'',
              ''Inc'', ''Corp'', ''Ltd'', ''Co'', ''Jr'', ''Sr'', ''Ph.D'']"

definition is_whitespace :: "char \<Rightarrow> bool" where
  "is_whitespace c = (c = CHR '' '' \<or> c = CHR 0x09 \<or> c = CHR 0x0A \<or> c = CHR 0x0D)"

definition is_alpha :: "char \<Rightarrow> bool" where
  "is_alpha c = ((CHR ''a'' \<le> c \<and> c \<le> CHR ''z'') \<or> (CHR ''A'' \<le> c \<and> c \<le> CHR ''Z''))"

section \<open>First pass: the helpers of the segmenter\<close>

function skip_spaces :: "text_ptr \<Rightarrow> nat \<Rightarrow> nat \<Rightarrow> nat" where
  "skip_spaces text j len =
     (if j < len \<and> is_whitespace (text j) then skip_spaces text (j + 1) len else j)"
  by pat_completeness auto
termination
  by (relation "measure (\<lambda>(text, j, len). len - j)") auto

declare skip_spaces.simps [simp del]

text \<open>
  \<^verbatim>\<open>strcasecmp(a, b) == 0\<close> on two byte buffers: each is read up to its first NUL, and
  the bytes are compared after \<^verbatim>\<open>tolower\<close>.
\<close>

definition strcasecmp_eq :: "string \<Rightarrow> string \<Rightarrow> bool" where
  "strcasecmp_eq a b =
     (map tolower (takeWhile (\<lambda>c. c \<noteq> CHR 0x00) a) = map tolower (takeWhile (\<lambda>c. c \<noteq> CHR 0x00) b))"

text \<open>
  The \<^verbatim>\<open>while (start >= 0 && !is_whitespace(text[start])) start--\<close> of
  \<^verbatim>\<open>matches_abbreviation\<close>. The decrement runs only on \<open>start \<ge> 0\<close>, so it does not wrap.
\<close>

function abbrev_start :: "text_ptr \<Rightarrow> int \<Rightarrow> int" where
  "abbrev_start text start =
     (if start \<ge> 0 \<and> \<not> is_whitespace (text (nat start)) then abbrev_start text (start - 1) else start)"
  by pat_completeness auto
termination
  by (relation "measure (\<lambda>(text, start). nat (start + 1))") auto

declare abbrev_start.simps [simp del]

text \<open>
  In \<^verbatim>\<open>matches_abbreviation\<close> the three \<^verbatim>\<open>int\<close> results \<^verbatim>\<open>(int)i - 1\<close>, \<^verbatim>\<open>start + 1\<close> (here
  \<open>first\<close>) and \<^verbatim>\<open>(int)i - (start + 1)\<close> wrap around: at \<open>(int)i = - 2^31\<close> the walk back
  starts from \<open>2^31 - 1\<close>. \<^verbatim>\<open>memcpy(buf, &text[start+1], abbrev_len)\<close> and the terminating
  NUL make \<open>buf\<close> the \<open>abbrev_len\<close> bytes \<^verbatim>\<open>text[start+1+k]\<close>, and the loop over \<^verbatim>\<open>ABBREVS\<close>
  returns true at the first entry that compares equal.
\<close>

definition matches_abbreviation :: "text_ptr \<Rightarrow> nat \<Rightarrow> bool" where
  "matches_abbreviation text i =
     (if i = 0 then False
      else
        let start = abbrev_start text (int_wrap (int_cast i - 1));
            first = int_wrap (start + 1);
            abbrev_len = int_wrap (int_cast i - first)
        in
          if abbrev_len \<le> 0 then False
          else if is_alpha (text (i + 1)) then True
          else if abbrev_len = 1 \<and> isupper (text (nat first)) then True
          else if abbrev_len = 1 \<and> \<not> is_whitespace (text (i + 1)) then True
          else if abbrev_len \<ge> 32 then False
          else
            let buf = map (\<lambda>k. text (nat (first + int k))) [0 ..< nat abbrev_len]
            in list_ex (\<lambda>a. strcasecmp_eq buf a) ABBREVS)"

text \<open>The loop of \<^verbatim>\<open>is_just_digits\<close>, from \<open>pos\<close> up to \<open>i\<close>.\<close>

function digits_from :: "text_ptr \<Rightarrow> nat \<Rightarrow> nat \<Rightarrow> bool" where
  "digits_from text pos i =
     (if pos < i then (if \<not> isdigit (text pos) then False else digits_from text (pos + 1) i)
      else True)"
  by pat_completeness auto
termination
  by (relation "measure (\<lambda>(text, pos, i). i - pos)") auto

declare digits_from.simps [simp del]

definition is_just_digits :: "text_ptr \<Rightarrow> nat \<Rightarrow> nat \<Rightarrow> bool" where
  "is_just_digits text start i = (if i \<le> start then False else digits_from text start i)"

text \<open>The word-start loop of the ordinal rule: back from \<open>i\<close> over bytes that are neither
  whitespace nor a dot.\<close>

function ordinal_word_start :: "text_ptr \<Rightarrow> nat \<Rightarrow> nat" where
  "ordinal_word_start text word_start =
     (if word_start > 0 \<and> \<not> is_whitespace (text (word_start - 1))
         \<and> text (word_start - 1) \<noteq> CHR ''.''
      then ordinal_word_start text (word_start - 1) else word_start)"
  by pat_completeness auto
termination
  by (relation "measure (\<lambda>(text, word_start). word_start)") auto

declare ordinal_word_start.simps [simp del]

definition is_end_of_sentence_heuristic :: "text_ptr \<Rightarrow> nat \<Rightarrow> nat \<Rightarrow> bool" where
  "is_end_of_sentence_heuristic text i len =
     (let c = text i in
      if c = CHR ''.'' \<and> i > 0 \<and> i < sz_sub len 1
         \<and> isdigit (text (i - 1)) \<and> isdigit (text (i + 1)) then False
      else if c = CHR ''.'' \<and> matches_abbreviation text i then False
      else if c = CHR ''.'' then
        (let word_start = ordinal_word_start text i in
         if is_just_digits text word_start i then
           (let j = skip_spaces text (i + 1) len in
            if j \<ge> len then False
            else if isdigit (text j) \<or> islower (text j) then False
            else True)
         else True)
      else True)"

function consume_multiple_punctuation :: "text_ptr \<Rightarrow> nat \<Rightarrow> nat \<Rightarrow> nat" where
  "consume_multiple_punctuation text i len =
     (if i + 1 < len \<and> is_sentence_punct (text (i + 1))
      then consume_multiple_punctuation text (i + 1) len else i)"
  by pat_completeness auto
termination
  by (relation "measure (\<lambda>(text, i, len). len - i)") auto

declare consume_multiple_punctuation.simps [simp del]

definition is_closer :: "char \<Rightarrow> bool" where
  "is_closer c = (c = CHR 0x22 \<or> c = CHR 0x27 \<or> c = CHR '')'' \<or> c = CHR '']''
                  \<or> c = CHR ''}'' \<or> is_sentence_punct c)"

function consume_trailing_closers :: "text_ptr \<Rightarrow> nat \<Rightarrow> nat \<Rightarrow> nat" where
  "consume_trailing_closers text i len =
     (if i + 1 < len then
        (if is_closer (text (i + 1)) then consume_trailing_closers text (i + 1) len else i)
      else i)"
  by pat_completeness auto
termination
  by (relation "measure (\<lambda>(text, i, len). len - i)") auto

declare consume_trailing_closers.simps [simp del]

section \<open>First pass: \<^verbatim>\<open>a_sentence_chunker\<close>\<close>

lemma consume_multiple_punctuation_ge: "i \<le> consume_multiple_punctuation tx i len"
proof (induction tx i len rule: consume_multiple_punctuation.induct)
  case (1 tx i len)
  show ?case
  proof (cases "i + 1 < len \<and> is_sentence_punct (tx (i + 1))")
    case True
    with 1 have "i + 1 \<le> consume_multiple_punctuation tx (i + 1) len" by blast
    with True show ?thesis by (subst consume_multiple_punctuation.simps) simp
  next
    case False
    then show ?thesis by (subst consume_multiple_punctuation.simps) auto
  qed
qed

lemma consume_trailing_closers_ge: "i \<le> consume_trailing_closers tx i len"
proof (induction tx i len rule: consume_trailing_closers.induct)
  case (1 tx i len)
  show ?case
  proof (cases "i + 1 < len \<and> is_closer (tx (i + 1))")
    case True
    with 1 have "i + 1 \<le> consume_trailing_closers tx (i + 1) len" by blast
    with True show ?thesis by (subst consume_trailing_closers.simps) simp
  next
    case False
    then show ?thesis by (subst consume_trailing_closers.simps) auto
  qed
qed

text \<open>
  Modelled from the spec: the output sink \<^verbatim>\<open>aml_buffer_t\<close> (a-memory-library, not part of
  these sources) is an append-only sequence of records: \<^verbatim>\<open>aml_buffer_clear\<close> gives the
  empty list, \<^verbatim>\<open>aml_buffer_append\<close> adds a record at the end, and the returned array
  and count are the list and its length.

  The scan loop of \<^verbatim>\<open>a_sentence_chunker\<close>; its state is the cursor \<open>i\<close>, \<open>start_off\<close>
  and the output buffer \<open>bh\<close>.
\<close>

function sentence_loop ::
  "text_ptr \<Rightarrow> nat \<Rightarrow> nat \<Rightarrow> nat \<Rightarrow> a_sentence_chunk_t list \<Rightarrow> a_sentence_chunk_t list" where
  "sentence_loop text len i start_off bh =
     (if i < len then
        (if is_sentence_punct (text i) then
           (let last_punct = consume_multiple_punctuation text i len in
            if is_end_of_sentence_heuristic text last_punct len then
              (let last_punct' = consume_trailing_closers text last_punct len;
                   boundary_len = sz_sub (last_punct' + 1) start_off;
                   bh' = (if boundary_len > 0
                          then bh @ [\<lparr>start_offset = start_off, length_c = boundary_len\<rparr>]
                          else bh);
                   i' = last_punct' + 1
               in sentence_loop text len i' (skip_spaces text i' len) bh')
            else sentence_loop text len (last_punct + 1) start_off bh)
         else sentence_loop text len (i + 1) start_off bh)
      else
        (if start_off < len then
           (let boundary_len = sz_sub len start_off in
            if boundary_len > 0
            then bh @ [\<lparr>start_offset = start_off, length_c = boundary_len\<rparr>]
            else bh)
         else bh))"
  by pat_completeness auto
termination
proof (relation "measure (\<lambda>(text, len, i, start_off, bh). len - i)", goal_cases)
  case 1
  show ?case by simp
next
  case (2 tx len i start_off bh last_punct last_punct' boundary_len bh' i')
  have "i \<le> last_punct" using 2(3) consume_multiple_punctuation_ge by simp
  also have "last_punct \<le> last_punct'" using 2(5) consume_trailing_closers_ge by simp
  finally show ?case using 2(1,8) by simp
next
  case (3 tx len i start_off bh last_punct)
  have "i \<le> last_punct" using 3(3) consume_multiple_punctuation_ge by simp
  then show ?case using 3(1) by simp
next
  case (4 tx len i start_off bh)
  then show ?case by simp
qed

declare sentence_loop.simps [simp del]

text \<open>
  The argument is \<open>None\<close> for a NULL pointer and \<open>Some s\<close> for a NUL-terminated buffer
  holding \<open>s\<close>; the result is the returned array (the empty list for NULL and count 0).
\<close>

definition a_sentence_chunker :: "string option \<Rightarrow> a_sentence_chunk_t list" where
  "a_sentence_chunker text =
     (case text of
        None \<Rightarrow> []
      | Some s \<Rightarrow>
          if cstr s 0 = CHR 0x00 then []
          else sentence_loop (cstr s) (strlen s) 0 0 [])"

section \<open>The end-of-sentence heuristic with bounds-checked reads\<close>

text \<open>
  The same functions with every read of \<^verbatim>\<open>text[k]\<close> made explicit: \<open>rd lim text k\<close> is the
  byte when \<open>0 \<le> k < lim\<close>, where \<open>lim\<close> is the number of readable bytes of the buffer, and
  \<open>None\<close> otherwise; a function returns \<open>None\<close> as soon as one of its reads is refused.
  The operands of \<^verbatim>\<open>&&\<close> and \<^verbatim>\<open>||\<close> are read in the order of the source, and only when
  the source evaluates them.
\<close>

definition rd :: "nat \<Rightarrow> text_ptr \<Rightarrow> int \<Rightarrow> char option" where
  "rd lim text k = (if 0 \<le> k \<and> k < int lim then Some (text (nat k)) else None)"

function skip_spaces_chk :: "nat \<Rightarrow> text_ptr \<Rightarrow> nat \<Rightarrow> nat \<Rightarrow> nat option" where
  "skip_spaces_chk lim text j len =
     (if j < len then
        do { c \<leftarrow> rd lim text (int j);
             if is_whitespace c then skip_spaces_chk lim text (j + 1) len else Some j }
      else Some j)"
  by pat_completeness auto
termination
  by (relation "measure (\<lambda>(lim, text, j, len). len - j)") auto

declare skip_spaces_chk.simps [simp del]

function abbrev_start_chk :: "nat \<Rightarrow> text_ptr \<Rightarrow> int \<Rightarrow> int option" where
  "abbrev_start_chk lim text start =
     (if start \<ge> 0 then
        do { c \<leftarrow> rd lim text start;
             if \<not> is_whitespace c then abbrev_start_chk lim text (start - 1) else Some start }
      else Some start)"
  by pat_completeness auto
termination
  by (relation "measure (\<lambda>(lim, text, start). nat (start + 1))") auto

declare abbrev_start_chk.simps [simp del]

definition matches_abbreviation_chk :: "nat \<Rightarrow> text_ptr \<Rightarrow> nat \<Rightarrow> bool option" where
  "matches_abbreviation_chk lim text i =
     (if i = 0 then Some False
      else
        do { start \<leftarrow> abbrev_start_chk lim text (int_wrap (int_cast i - 1));
             let first = int_wrap (start + 1);
             let abbrev_len = int_wrap (int_cast i - first);
             if abbrev_len \<le> 0 then Some False
             else
               do { nxt \<leftarrow> rd lim text (int i + 1);
                    if is_alpha nxt then Some True
                    else
                      do { upper1 \<leftarrow> (if abbrev_len = 1
                                       then do { c \<leftarrow> rd lim text first; Some (isupper c) }
                                       else Some False);
                           if upper1 then Some True
                           else
                             do { flush1 \<leftarrow> (if abbrev_len = 1
                                              then do { c \<leftarrow> rd lim text (int i + 1);
                                                        Some (\<not> is_whitespace c) }
                                              else Some False);
                                  if flush1 then Some True
                                  else if abbrev_len \<ge> 32 then Some False
                                  else
                                    do { buf \<leftarrow> those (map (\<lambda>k. rd lim text (first + int k))
                                                        [0 ..< nat abbrev_len]);
                                         Some (list_ex (\<lambda>a. strcasecmp_eq buf a) ABBREVS) } } } } })"

function digits_from_chk :: "nat \<Rightarrow> text_ptr \<Rightarrow> nat \<Rightarrow> nat \<Rightarrow> bool option" where
  "digits_from_chk lim text pos i =
     (if pos < i then
        do { c \<leftarrow> rd lim text (int pos);
             if \<not> isdigit c then Some False else digits_from_chk lim text (pos + 1) i }
      else Some True)"
  by pat_completeness auto
termination
  by (relation "measure (\<lambda>(lim, text, pos, i). i - pos)") auto

declare digits_from_chk.simps [simp del]

definition is_just_digits_chk :: "nat \<Rightarrow> text_ptr \<Rightarrow> nat \<Rightarrow> nat \<Rightarrow> bool option" where
  "is_just_digits_chk lim text start i =
     (if i \<le> start then Some False else digits_from_chk lim text start i)"

function ordinal_word_start_chk :: "nat \<Rightarrow> text_ptr \<Rightarrow> nat \<Rightarrow> nat option" where
  "ordinal_word_start_chk lim text word_start =
     (if word_start > 0 then
        do { c \<leftarrow> rd lim text (int word_start - 1);
             if \<not> is_whitespace c \<and> c \<noteq> CHR ''.''
             then ordinal_word_start_chk lim text (word_start - 1) else Some word_start }
      else Some word_start)"
  by pat_completeness auto
termination
  by (relation "measure (\<lambda>(lim, text, word_start). word_start)") auto

declare ordinal_word_start_chk.simps [simp del]

definition is_end_of_sentence_heuristic_chk :: "nat \<Rightarrow> text_ptr \<Rightarrow> nat \<Rightarrow> nat \<Rightarrow> bool option" where
  "is_end_of_sentence_heuristic_chk lim text i len =
     do { c \<leftarrow> rd lim text (int i);
          decimal \<leftarrow> (if c = CHR ''.'' \<and> i > 0 \<and> i < sz_sub len 1
                      then do { p \<leftarrow> rd lim text (int i - 1);
                                if isdigit p
                                then do { n \<leftarrow> rd lim text (int i + 1); Some (isdigit n) }
                                else Some False }
                      else Some False);
          if decimal then Some False
          else
            do { abbrev \<leftarrow> (if c = CHR ''.'' then matches_abbreviation_chk lim text i
                            else Some False);
                 if abbrev then Some False
                 else if c = CHR ''.'' then
                   do { word_start \<leftarrow> ordinal_word_start_chk lim text i;
                        digits \<leftarrow> is_just_digits_chk lim text word_start i;
                        if digits then
                          do { j \<leftarrow> skip_spaces_chk lim text (i + 1) len;
                               if j \<ge> len then Some False
                               else
                                 do { cj \<leftarrow> rd lim text (int j);
                                      if isdigit cj \<or> islower cj then Some False
                                      else Some True } }
                        else Some True }
                 else Some True } }"

section \<open>Second pass: splitting and merging by length\<close>

text \<open>The two loops of \<^verbatim>\<open>adjust_for_token_boundary\<close>: backward from the candidate down to
  \<open>chunk_start\<close> (exclusive), then forward up to \<open>chunk_end\<close> (exclusive).\<close>

function scan_backward :: "text_ptr \<Rightarrow> nat \<Rightarrow> nat \<Rightarrow> nat option" where
  "scan_backward text chunk_start j =
     (if j > chunk_start then
        (if is_whitespace (text j) then Some j else scan_backward text chunk_start (j - 1))
      else None)"
  by pat_completeness auto
termination
  by (relation "measure (\<lambda>(text, chunk_start, j). j)") auto

declare scan_backward.simps [simp del]

function scan_forward :: "text_ptr \<Rightarrow> nat \<Rightarrow> nat \<Rightarrow> nat option" where
  "scan_forward text chunk_end j =
     (if j < chunk_end then
        (if is_whitespace (text j) then Some j else scan_forward text chunk_end (j + 1))
      else None)"
  by pat_completeness auto
termination
  by (relation "measure (\<lambda>(text, chunk_end, j). chunk_end - j)") auto

declare scan_forward.simps [simp del]

definition adjust_for_token_boundary :: "text_ptr \<Rightarrow> nat \<Rightarrow> nat \<Rightarrow> nat \<Rightarrow> nat" where
  "adjust_for_token_boundary text chunk_start chunk_end candidate =
     (if candidate \<le> chunk_start \<or> candidate \<ge> chunk_end then candidate
      else
        (case scan_backward text chunk_start candidate of
           Some j \<Rightarrow> j
         | None \<Rightarrow>
             (case scan_forward text chunk_end candidate of
                Some j \<Rightarrow> j
              | None \<Rightarrow> 0)))"

text \<open>
  Every heuristic of \<^verbatim>\<open>find_split_point\<close> is a loop
  \<^verbatim>\<open>for (i = search_end; i > search_start; i--)\<close> that returns at the first \<open>i\<close> passing its
  test: \<open>scan_down\<close> finds that \<open>i\<close>, and \<open>accept_adjusted\<close> is the body every loop runs
  on it (adjust, then return the adjusted index if it lies strictly inside the chunk, and
  \<open>end_offset\<close> otherwise).
\<close>

function scan_down :: "(nat \<Rightarrow> bool) \<Rightarrow> nat \<Rightarrow> nat \<Rightarrow> nat option" where
  "scan_down test search_start i =
     (if i > search_start then
        (if test i then Some i else scan_down test search_start (i - 1))
      else None)"
  by pat_completeness auto
termination
  by (relation "measure (\<lambda>(test, search_start, i). i)") auto

declare scan_down.simps [simp del]

definition accept_adjusted :: "text_ptr \<Rightarrow> nat \<Rightarrow> nat \<Rightarrow> nat \<Rightarrow> nat" where
  "accept_adjusted text start_ofs end_offset i =
     (let adjusted = adjust_for_token_boundary text start_ofs end_offset i in
      if adjusted > start_ofs \<and> adjusted < end_offset then adjusted else end_offset)"

text \<open>
  The parameter \<^verbatim>\<open>start_offset\<close> is written \<open>start_ofs\<close> and \<^verbatim>\<open>length\<close> is written \<open>len\<close>
  (the field selector and the list length have these names). In the tests,
  \<open>i > search_start\<close> gives \<open>i \<ge> 1\<close>, so \<^verbatim>\<open>i - 1\<close> does not wrap; \<^verbatim>\<open>i - 2\<close>
  can (at \<open>i = 1\<close>) and is written with \<open>sz_sub\<close>. The inner loop of the third heuristic is
  the loop of \<open>skip_spaces\<close> with \<open>end_offset\<close> as its bound.
\<close>

definition find_split_point :: "text_ptr \<Rightarrow> nat \<Rightarrow> nat \<Rightarrow> nat \<Rightarrow> nat \<Rightarrow> nat" where
  "find_split_point text start_ofs len min_length max_length =
     (let end_offset = sz_add start_ofs len in
      if len \<le> max_length then end_offset
      else
        let search_start = sz_add start_ofs min_length;
            valid_split_end = sz_sub end_offset min_length;
            search_end = sz_add start_ofs max_length
        in
          if search_end > valid_split_end then end_offset
          else if search_start \<ge> search_end then end_offset
          else
            (case scan_down (\<lambda>i. i - 1 \<ge> search_start \<and> i < end_offset
                                  \<and> text (i - 1) = CHR 0x0A \<and> text i = CHR 0x0A)
                    search_start search_end of
               Some i \<Rightarrow> accept_adjusted text start_ofs end_offset i
             | None \<Rightarrow>
            (case scan_down (\<lambda>i. sz_sub i 2 \<ge> search_start \<and> i < end_offset
                                  \<and> isspace (text (sz_sub i 2)) \<and> isspace (text (i - 1))
                                  \<and> isspace (text i))
                    search_start search_end of
               Some i \<Rightarrow> accept_adjusted text start_ofs end_offset i
             | None \<Rightarrow>
            (case scan_down (\<lambda>i. text i = CHR 0x0A) search_start search_end of
               Some i \<Rightarrow> accept_adjusted text start_ofs end_offset i
             | None \<Rightarrow>
            (case scan_down (\<lambda>i. i < end_offset
                                  \<and> (text (i - 1) = CHR ''.'' \<or> text (i - 1) = CHR ''!''
                                       \<or> text (i - 1) = CHR ''?'')
                                  \<and> is_whitespace (text i)
                                  \<and> (let j = skip_spaces text (i + 1) end_offset
                                      in j < end_offset \<and> isupper (text j)))
                    search_start search_end of
               Some i \<Rightarrow> accept_adjusted text start_ofs end_offset i
             | None \<Rightarrow>
            (case scan_down (\<lambda>i. isspace (text i)) search_start search_end of
               Some i \<Rightarrow> accept_adjusted text start_ofs end_offset i
             | None \<Rightarrow> accept_adjusted text start_ofs end_offset search_end))))))"

section \<open>Second pass: \<^verbatim>\<open>a_rechunk_sentences\<close>\<close>

lemma SIZE_MOD_pos: "0 < SIZE_MOD" by (simp add: SIZE_MOD_def)

lemma sz_add_less: "sz_add a b < SIZE_MOD"
  by (simp add: sz_add_def SIZE_MOD_pos)

lemma sz_add_le: "sz_add a b \<le> a + b"
  by (simp add: sz_add_def)

lemma sz_sub_eq: "b \<le> a \<Longrightarrow> a < SIZE_MOD \<Longrightarrow> sz_sub a b = a - b"
proof -
  assume le: "b \<le> a" and lt: "a < SIZE_MOD"
  have eq: "a + SIZE_MOD - b = (a - b) + SIZE_MOD" using le by arith
  have "sz_sub a b = ((a - b) + SIZE_MOD) mod SIZE_MOD"
    unfolding sz_sub_def by (simp only: eq)
  also have "\<dots> = (a - b) mod SIZE_MOD" by (simp only: mod_add_self2)
  also have "\<dots> = a - b" using lt by (intro mod_less) arith
  finally show ?thesis .
qed

lemma split_remainder_less:
  assumes "s < sp" and "sp < sz_add s l"
  shows "sz_sub (sz_add s l) sp < l"
proof -
  have "sz_sub (sz_add s l) sp = sz_add s l - sp"
    using assms(2) sz_add_less [of s l] by (intro sz_sub_eq) arith+
  also have "\<dots> < sz_add s l - s" using assms by arith
  also have "\<dots> \<le> l" using sz_add_le [of s l] by arith
  finally show ?thesis .
qed

lemma sz_add_eq: "a + b < SIZE_MOD \<Longrightarrow> sz_add a b = a + b"
  by (simp add: sz_add_def)

lemma sz_add_sub_cancel:
  assumes "a < SIZE_MOD" and "e < SIZE_MOD"
  shows "sz_add a (sz_sub e a) = e"
proof (cases "a \<le> e")
  case True
  then have "sz_sub e a = e - a" using assms by (intro sz_sub_eq) arith+
  moreover have "a + (e - a) = e" using True by arith
  ultimately show ?thesis using assms(2) by (simp add: sz_add_def)
next
  case False
  then have lt: "e < a" by arith
  have "e + SIZE_MOD - a < SIZE_MOD" using lt assms by arith
  then have s: "sz_sub e a = e + SIZE_MOD - a" unfolding sz_sub_def by (rule mod_less)
  have "a + (e + SIZE_MOD - a) = e + SIZE_MOD" using assms lt by arith
  then have "sz_add a (sz_sub e a) = (e + SIZE_MOD) mod SIZE_MOD"
    unfolding sz_add_def s by (simp only:)
  also have "\<dots> = e mod SIZE_MOD" by (simp only: mod_add_self2)
  also have "\<dots> = e" using assms(2) by (rule mod_less)
  finally show ?thesis .
qed

text \<open>
  One iteration of the splitting loop of case 3 on \<open>remaining\<close>: \<open>None\<close> is the \<^verbatim>\<open>break\<close>;
  otherwise the sub-chunk that is appended and the new \<open>remaining\<close>.
\<close>

definition split_step ::
  "text_ptr \<Rightarrow> nat \<Rightarrow> nat \<Rightarrow> a_sentence_chunk_t \<Rightarrow> (a_sentence_chunk_t \<times> a_sentence_chunk_t) option" where
  "split_step text min_length max_length remaining =
     (let split_pt = find_split_point text (start_offset remaining) (length_c remaining)
                       min_length max_length
      in
        if split_pt \<le> start_offset remaining
           \<or> split_pt \<ge> sz_add (start_offset remaining) (length_c remaining)
        then None
        else Some (\<lparr>start_offset = start_offset remaining,
                     length_c = sz_sub split_pt (start_offset remaining)\<rparr>,
                   \<lparr>start_offset = split_pt,
                     length_c = sz_sub (sz_add (start_offset remaining) (length_c remaining)) split_pt\<rparr>))"

lemma split_step_decreases:
  assumes "split_step tx mn mx r = Some (c, r')"
  shows "length_c r' < length_c r"
proof -
  let ?sp = "find_split_point tx (start_offset r) (length_c r) mn mx"
  from assms have inside: "start_offset r < ?sp" "?sp < sz_add (start_offset r) (length_c r)"
    and r': "r' = \<lparr>start_offset = ?sp, length_c = sz_sub (sz_add (start_offset r) (length_c r)) ?sp\<rparr>"
    by (auto simp: split_step_def Let_def split: if_splits)
  from split_remainder_less [OF inside] r' show ?thesis by simp
qed

function split_loop ::
  "text_ptr \<Rightarrow> nat \<Rightarrow> nat \<Rightarrow> a_sentence_chunk_t \<Rightarrow> a_sentence_chunk_t list \<Rightarrow> a_sentence_chunk_t list" where
  "split_loop text min_length max_length remaining buf =
     (if length_c remaining > max_length then
        (case split_step text min_length max_length remaining of
           None \<Rightarrow> buf @ [remaining]
         | Some (chunk, remaining') \<Rightarrow>
             split_loop text min_length max_length remaining' (buf @ [chunk]))
      else buf @ [remaining])"
  by pat_completeness auto
termination
proof (relation "measure (\<lambda>(text, min_length, max_length, remaining, buf). length_c remaining)",
    goal_cases)
  case 1
  show ?case by simp
next
  case (2 tx mn mx r buf x2 c r')
  then have "split_step tx mn mx r = Some (c, r')" by simp
  from split_step_decreases [OF this] show ?case by simp
qed

declare split_loop.simps [simp del]

text \<open>
  The backward merge of case 2 reads the record before \<^verbatim>\<open>aml_buffer_end(second_buffer)\<close>.
  On an empty buffer there is no such record: that access is the error
  \<open>EmptyBufferAccess\<close>. The result is the flag \<open>merged\<close> and the buffer.
\<close>

datatype error = EmptyBufferAccess

definition backward_merge ::
  "a_sentence_chunk_t \<Rightarrow> nat \<Rightarrow> nat \<Rightarrow> a_sentence_chunk_t list
   \<Rightarrow> error + (bool \<times> a_sentence_chunk_t list)" where
  "backward_merge current max_length i buf =
     (if i > 0 then
        (if buf = [] then Inl EmptyBufferAccess
         else
           let lastc = last buf;
               combined_len = sz_sub (sz_add (start_offset current) (length_c current))
                                (start_offset lastc)
           in
             if combined_len \<le> max_length
             then Inr (True, butlast buf @ [lastc\<lparr>length_c := combined_len\<rparr>])
             else Inr (False, buf))
      else Inr (False, buf))"

definition forward_combined :: "a_sentence_chunk_t \<Rightarrow> a_sentence_chunk_t \<Rightarrow> nat" where
  "forward_combined current nxt =
     sz_sub (sz_add (start_offset nxt) (length_c nxt)) (start_offset current)"

function rechunk_loop ::
  "text_ptr \<Rightarrow> a_sentence_chunk_t list \<Rightarrow> nat \<Rightarrow> nat \<Rightarrow> nat \<Rightarrow> a_sentence_chunk_t list
   \<Rightarrow> error + a_sentence_chunk_t list" where
  "rechunk_loop text first_pass_chunks min_length max_length i buf =
     (if i < length first_pass_chunks then
        (let current = first_pass_chunks ! i;
             chunk_length = length_c current
         in
           if chunk_length \<ge> min_length \<and> chunk_length \<le> max_length then
             rechunk_loop text first_pass_chunks min_length max_length (i + 1) (buf @ [current])
           else if chunk_length < min_length then
             (case backward_merge current max_length i buf of
                Inl e \<Rightarrow> Inl e
              | Inr (merged, buf1) \<Rightarrow>
                  if \<not> merged \<and> i + 1 < length first_pass_chunks
                     \<and> forward_combined current (first_pass_chunks ! (i + 1)) \<le> max_length
                  then
                    rechunk_loop text first_pass_chunks min_length max_length (i + 2)
                      (buf1 @ [\<lparr>start_offset = start_offset current,
                                length_c = forward_combined current (first_pass_chunks ! (i + 1))\<rparr>])
                  else
                    rechunk_loop text first_pass_chunks min_length max_length (i + 1)
                      (if \<not> merged then buf1 @ [current] else buf1))
           else
             rechunk_loop text first_pass_chunks min_length max_length (i + 1)
               (split_loop text min_length max_length current buf))
      else Inr buf)"
  by pat_completeness auto
termination
proof (relation "measure (\<lambda>(text, first_pass_chunks, min_length, max_length, i, buf).
                            length first_pass_chunks - i)", goal_cases)
  case 1
  show ?case by simp
next
  case 2
  then show ?case by simp
next
  case (3 tx cs mn mx i buf x xa b xaa y)
  then have "i + 1 < length cs" by blast
  then show ?case by simp
next
  case 4
  then show ?case by simp
next
  case 5
  then show ?case by simp
qed

declare rechunk_loop.simps [simp del]

definition a_rechunk_sentences ::
  "text_ptr \<Rightarrow> a_sentence_chunk_t list \<Rightarrow> nat \<Rightarrow> nat \<Rightarrow> error + a_sentence_chunk_t list" where
  "a_rechunk_sentences text first_pass_chunks min_length max_length =
     rechunk_loop text first_pass_chunks min_length max_length 0 []"

section \<open>Predicates on chunk sequences and loop states\<close>

text \<open>
  \<open>chunk_end\<close> is the mathematical end \<open>start_offset + length\<close> of a chunk (no wrap-around).
  A sequence is \<open>well_formed\<close> for a text of length \<open>L\<close> when every chunk has a positive
  length and ends at or before \<open>L\<close>, and every chunk ends at or before the start of every
  later chunk: the starts are then strictly increasing and the ranges do not overlap.
\<close>

definition chunk_end :: "a_sentence_chunk_t \<Rightarrow> nat" where
  "chunk_end c = start_offset c + length_c c"

definition well_formed :: "nat \<Rightarrow> a_sentence_chunk_t list \<Rightarrow> bool" where
  "well_formed L cs =
     (list_all (\<lambda>c. 0 < length_c c \<and> chunk_end c \<le> L) cs
      \<and> sorted_wrt (\<lambda>a b. chunk_end a \<le> start_offset b) cs)"

text \<open>
  The invariant of the scan loop: both indices are within the text; when \<open>start_off\<close> is
  ahead of the cursor, only whitespace lies between them; the buffer is well formed and
  ends at or before \<open>start_off\<close>; every record but the first starts on a byte that is not
  whitespace, the first starts at 0, and once a record is in the buffer \<open>start_off\<close> is
  the end of the text or a byte that is not whitespace.
\<close>

definition loop_inv :: "text_ptr \<Rightarrow> nat \<Rightarrow> nat \<Rightarrow> nat \<Rightarrow> a_sentence_chunk_t list \<Rightarrow> bool" where
  "loop_inv tx len i start_off bh =
     (i \<le> len \<and> start_off \<le> len
      \<and> (\<forall>k. i \<le> k \<and> k < start_off \<longrightarrow> is_whitespace (tx k))
      \<and> well_formed len bh
      \<and> (\<forall>a\<in>set bh. chunk_end a \<le> start_off)
      \<and> (\<forall>c\<in>set (tl bh). \<not> is_whitespace (tx (start_offset c)))
      \<and> (bh = [] \<longrightarrow> start_off = 0)
      \<and> (bh \<noteq> [] \<longrightarrow> start_offset (hd bh) = 0 \<and> (start_off = len \<or> \<not> is_whitespace (tx start_off))))"

definition loop_post :: "text_ptr \<Rightarrow> nat \<Rightarrow> a_sentence_chunk_t list \<Rightarrow> bool" where
  "loop_post tx len res =
     (well_formed len res
      \<and> (\<forall>c\<in>set (tl res). \<not> is_whitespace (tx (start_offset c)))
      \<and> (res \<noteq> [] \<longrightarrow> start_offset (hd res) = 0))"

text \<open>
  \<open>no_terminal_punct text len\<close>: no index below \<open>len\<close> holds a punctuation byte that the
  end-of-sentence heuristic classifies as terminal.
\<close>

definition no_terminal_punct :: "text_ptr \<Rightarrow> nat \<Rightarrow> bool" where
  "no_terminal_punct text len =
     list_all (\<lambda>p. \<not> (is_sentence_punct (text p) \<and> is_end_of_sentence_heuristic text p len))
       [0..<len]"

text \<open>\<open>covered_indices\<close> lists the byte indices a chunk sequence covers, with repetition.\<close>

definition covered_indices :: "a_sentence_chunk_t list \<Rightarrow> nat list" where
  "covered_indices cs = concat (map (\<lambda>c. [start_offset c ..< start_offset c + length_c c]) cs)"

definition split_ok :: "text_ptr \<Rightarrow> nat \<Rightarrow> nat \<Rightarrow> nat \<Rightarrow> bool" where
  "split_ok tx s e r = (r = e \<or> (s < r \<and> r < e \<and> is_whitespace (tx r)))"

definition rechunk_inv ::
  "nat \<Rightarrow> a_sentence_chunk_t list \<Rightarrow> nat \<Rightarrow> a_sentence_chunk_t list \<Rightarrow> bool" where
  "rechunk_inv L cs i buf =
     (i \<le> length cs \<and> well_formed L buf \<and> (i = 0 \<longrightarrow> buf = [])
      \<and> (0 < i \<longrightarrow> buf \<noteq> [] \<and> start_offset (hd buf) = start_offset (hd cs)
                  \<and> chunk_end (last buf) = chunk_end (cs ! (i - 1)))
      \<and> set (covered_indices (take i cs)) \<subseteq> set (covered_indices buf))"





text \<open>
  A chunk boundary is in order when it is a boundary of the input sequence or the index
  of a whitespace byte; \<open>S\<close> and \<open>E\<close> are the starts and the ends of the input chunks.
\<close>

definition chunk_end_sz :: "a_sentence_chunk_t \<Rightarrow> nat" where
  "chunk_end_sz c = sz_add (start_offset c) (length_c c)"

definition boundaries_ok :: "text_ptr \<Rightarrow> nat set \<Rightarrow> nat set \<Rightarrow> a_sentence_chunk_t \<Rightarrow> bool" where
  "boundaries_ok tx S E c =
     (start_offset c < SIZE_MOD
      \<and> (start_offset c \<in> S \<or> is_whitespace (tx (start_offset c)))
      \<and> (chunk_end_sz c \<in> E \<or> is_whitespace (tx (chunk_end_sz c))))"

definition boundary_inv ::
  "text_ptr \<Rightarrow> a_sentence_chunk_t list \<Rightarrow> nat \<Rightarrow> a_sentence_chunk_t list \<Rightarrow> bool" where
  "boundary_inv tx cs i buf =
     ((0 < i \<longrightarrow> buf \<noteq> [])
      \<and> (\<forall>c\<in>set buf. boundaries_ok tx (start_offset ` set cs) (chunk_end_sz ` set cs) c))"

section \<open>Properties of chunk sequences\<close>

lemma well_formed_Nil: "well_formed L []"
  by (simp add: well_formed_def)

lemma well_formed_snoc:
  "well_formed L (cs @ [c]) =
     (well_formed L cs \<and> 0 < length_c c \<and> chunk_end c \<le> L
      \<and> (\<forall>a\<in>set cs. chunk_end a \<le> start_offset c))"
  by (auto simp: well_formed_def sorted_wrt_append)

lemma whitespace_not_punct: "is_whitespace c \<Longrightarrow> \<not> is_sentence_punct c"
  by (auto simp: is_whitespace_def is_sentence_punct_def)

lemma consume_multiple_punctuation_less:
  "i < len \<Longrightarrow> consume_multiple_punctuation tx i len < len"
proof (induction tx i len rule: consume_multiple_punctuation.induct)
  case (1 tx i len)
  then show ?case by (subst consume_multiple_punctuation.simps) auto
qed

lemma consume_multiple_punctuation_punct:
  "is_sentence_punct (tx i) \<Longrightarrow> is_sentence_punct (tx (consume_multiple_punctuation tx i len))"
proof (induction tx i len rule: consume_multiple_punctuation.induct)
  case (1 tx i len)
  then show ?case by (subst consume_multiple_punctuation.simps) auto
qed

lemma consume_trailing_closers_less:
  "i < len \<Longrightarrow> consume_trailing_closers tx i len < len"
proof (induction tx i len rule: consume_trailing_closers.induct)
  case (1 tx i len)
  then show ?case by (subst consume_trailing_closers.simps) auto
qed

lemma skip_spaces_ge: "j \<le> skip_spaces tx j len"
proof (induction tx j len rule: skip_spaces.induct)
  case (1 tx j len)
  then show ?case by (subst skip_spaces.simps) auto
qed

lemma skip_spaces_le: "j \<le> len \<Longrightarrow> skip_spaces tx j len \<le> len"
proof (induction tx j len rule: skip_spaces.induct)
  case (1 tx j len)
  then show ?case by (subst skip_spaces.simps) auto
qed

lemma skip_spaces_whitespace:
  "j \<le> k \<Longrightarrow> k < skip_spaces tx j len \<Longrightarrow> is_whitespace (tx k)"
proof (induction tx j len rule: skip_spaces.induct)
  case (1 tx j len)
  show ?case
  proof (cases "j < len \<and> is_whitespace (tx j)")
    case True
    with 1(3) have k: "k < skip_spaces tx (j + 1) len"
      by (subst (asm) skip_spaces.simps) simp
    show ?thesis
    proof (cases "k = j")
      case True
      with \<open>j < len \<and> is_whitespace (tx j)\<close> show ?thesis by simp
    next
      case False
      with 1(2) have "j + 1 \<le> k" by simp
      from 1(1) [OF True this k] show ?thesis .
    qed
  next
    case False
    with 1(3) have "k < j" by (subst (asm) skip_spaces.simps) auto
    with 1(2) show ?thesis by simp
  qed
qed

lemma skip_spaces_stop:
  "skip_spaces tx j len < len \<Longrightarrow> \<not> is_whitespace (tx (skip_spaces tx j len))"
proof (induction tx j len rule: skip_spaces.induct)
  case (1 tx j len)
  show ?case
  proof (cases "j < len \<and> is_whitespace (tx j)")
    case True
    then have eq: "skip_spaces tx j len = skip_spaces tx (j + 1) len"
      by (subst skip_spaces.simps) simp
    with 1 True show ?thesis by simp
  next
    case False
    then have eq: "skip_spaces tx j len = j" by (subst skip_spaces.simps) auto
    with 1(2) False show ?thesis by auto
  qed
qed

section \<open>The scan loop of the first pass: invariant\<close>

lemma loop_inv_start_le:
  assumes "loop_inv tx len i start_off bh" and "i < len" and "is_sentence_punct (tx i)"
  shows "start_off \<le> i"
proof (rule ccontr)
  assume "\<not> start_off \<le> i"
  then have "i < start_off" by simp
  with assms(1) have "is_whitespace (tx i)" by (simp add: loop_inv_def)
  with assms(3) show False by (simp add: whitespace_not_punct)
qed

lemma loop_inv_normal:
  assumes "loop_inv tx len i start_off bh" and "i < len"
  shows "loop_inv tx len (i + 1) start_off bh"
  using assms unfolding loop_inv_def by auto

lemma loop_inv_absorb:
  assumes inv: "loop_inv tx len i start_off bh" and "i < len" and "is_sentence_punct (tx i)"
    and "i \<le> lp" and "lp < len"
  shows "loop_inv tx len (lp + 1) start_off bh"
proof -
  have "start_off \<le> i" using assms(1-3) by (rule loop_inv_start_le)
  with assms show ?thesis unfolding loop_inv_def by auto
qed

lemma loop_inv_boundary:
  assumes inv: "loop_inv tx len i start_off bh" and "i < len" and "is_sentence_punct (tx i)"
    and "i \<le> lp" and "lp < len" and len: "len < SIZE_MOD"
  shows "sz_sub (lp + 1) start_off > 0
         \<and> loop_inv tx len (lp + 1) (skip_spaces tx (lp + 1) len)
              (bh @ [\<lparr>start_offset = start_off, length_c = sz_sub (lp + 1) start_off\<rparr>])"
proof -
  have so: "start_off \<le> i" using assms(1-3) by (rule loop_inv_start_le)
  have sub: "sz_sub (lp + 1) start_off = lp + 1 - start_off"
    using so assms(4,5) len by (intro sz_sub_eq) arith+
  let ?c = "\<lparr>start_offset = start_off, length_c = sz_sub (lp + 1) start_off\<rparr>"
  let ?s = "skip_spaces tx (lp + 1) len"
  have pos: "sz_sub (lp + 1) start_off > 0" using sub so assms(4) by arith
  have cend: "chunk_end ?c = lp + 1" using sub so assms(4) by (simp add: chunk_end_def)
  have s_ge: "lp + 1 \<le> ?s" by (rule skip_spaces_ge)
  have s_le: "?s \<le> len" using assms(5) by (intro skip_spaces_le) simp
  have ws: "\<forall>k. lp + 1 \<le> k \<and> k < ?s \<longrightarrow> is_whitespace (tx k)"
    using skip_spaces_whitespace by blast
  have stop: "?s = len \<or> \<not> is_whitespace (tx ?s)"
    using s_le skip_spaces_stop [of tx "lp + 1" len] by (cases "?s < len") auto
  have wf: "well_formed len (bh @ [?c])"
    using inv cend pos assms(5) unfolding loop_inv_def well_formed_snoc by simp
  have ends: "\<forall>a\<in>set (bh @ [?c]). chunk_end a \<le> ?s"
  proof
    fix a assume "a \<in> set (bh @ [?c])"
    then consider "a \<in> set bh" | "a = ?c" by auto
    then show "chunk_end a \<le> ?s"
    proof cases
      case 1
      with inv have "chunk_end a \<le> start_off" by (simp add: loop_inv_def)
      with so assms(4) s_ge show ?thesis by arith
    next
      case 2
      with cend s_ge show ?thesis by simp
    qed
  qed
  have tl: "\<forall>c\<in>set (tl (bh @ [?c])). \<not> is_whitespace (tx (start_offset c))"
  proof (cases "bh = []")
    case True
    then show ?thesis by simp
  next
    case False
    with inv so assms(2) have "\<not> is_whitespace (tx start_off)"
      unfolding loop_inv_def by auto
    with False inv show ?thesis unfolding loop_inv_def by auto
  qed
  have hd: "start_offset (hd (bh @ [?c])) = 0"
    using inv unfolding loop_inv_def by (cases bh) auto
  have "loop_inv tx len (lp + 1) ?s (bh @ [?c])"
    unfolding loop_inv_def using assms(5) s_le ws wf ends tl hd stop by simp
  with pos show ?thesis by simp
qed

lemma loop_inv_exit:
  assumes inv: "loop_inv tx len i start_off bh" and len: "len < SIZE_MOD"
  shows "loop_post tx len
           (if start_off < len then
              (let boundary_len = sz_sub len start_off in
               if boundary_len > 0
               then bh @ [\<lparr>start_offset = start_off, length_c = boundary_len\<rparr>]
               else bh)
            else bh)"
proof (cases "start_off < len")
  case False
  with inv show ?thesis unfolding loop_inv_def loop_post_def by simp
next
  case True
  then have sub: "sz_sub len start_off = len - start_off"
    using len by (intro sz_sub_eq) arith+
  let ?c = "\<lparr>start_offset = start_off, length_c = len - start_off\<rparr>"
  have cend: "chunk_end ?c = len" using True by (simp add: chunk_end_def)
  have wf: "well_formed len (bh @ [?c])"
    using inv cend True unfolding loop_inv_def well_formed_snoc by simp
  have tl: "\<forall>c\<in>set (tl (bh @ [?c])). \<not> is_whitespace (tx (start_offset c))"
  proof (cases "bh = []")
    case True
    then show ?thesis by simp
  next
    case False
    with inv True have "\<not> is_whitespace (tx start_off)"
      unfolding loop_inv_def by auto
    with False inv show ?thesis unfolding loop_inv_def by auto
  qed
  have hd: "start_offset (hd (bh @ [?c])) = 0"
    using inv unfolding loop_inv_def by (cases bh) auto
  show ?thesis using True sub wf tl hd unfolding loop_post_def by (simp add: Let_def)
qed

lemma sentence_loop_post:
  assumes "loop_inv tx len i start_off bh" and "len < SIZE_MOD"
  shows "loop_post tx len (sentence_loop tx len i start_off bh)"
  using assms
proof (induction tx len i start_off bh rule: sentence_loop.induct)
  case (1 tx len i start_off bh)
  note inv = \<open>loop_inv tx len i start_off bh\<close> and len = \<open>len < SIZE_MOD\<close>
  show ?case
  proof (cases "i < len")
    case False
    then have "sentence_loop tx len i start_off bh =
        (if start_off < len then
              (let boundary_len = sz_sub len start_off in
               if boundary_len > 0
               then bh @ [\<lparr>start_offset = start_off, length_c = boundary_len\<rparr>]
               else bh)
            else bh)"
      by (subst sentence_loop.simps) simp
    with loop_inv_exit [OF inv len] show ?thesis by simp
  next
    case lt: True
    show ?thesis
    proof (cases "is_sentence_punct (tx i)")
      case False
      with lt have eq: "sentence_loop tx len i start_off bh = sentence_loop tx len (i + 1) start_off bh"
        by (subst sentence_loop.simps) simp
      from loop_inv_normal [OF inv lt] have "loop_inv tx len (i + 1) start_off bh" .
      from "1.IH"(3) [OF lt False this len] eq show ?thesis by simp
    next
      case punct: True
      define lp where "lp = consume_multiple_punctuation tx i len"
      have lp_ge: "i \<le> lp" unfolding lp_def by (rule consume_multiple_punctuation_ge)
      have lp_lt: "lp < len" unfolding lp_def using lt by (rule consume_multiple_punctuation_less)
      show ?thesis
      proof (cases "is_end_of_sentence_heuristic tx lp len")
        case False
        with lt punct have eq: "sentence_loop tx len i start_off bh = sentence_loop tx len (lp + 1) start_off bh"
          by (subst sentence_loop.simps) (simp add: lp_def)
        from loop_inv_absorb [OF inv lt punct lp_ge lp_lt]
        have "loop_inv tx len (lp + 1) start_off bh" .
        from "1.IH"(2) [OF lt punct lp_def False this len] eq show ?thesis by simp
      next
        case is_term: True
        define lp' where "lp' = consume_trailing_closers tx lp len"
        have lp'_ge: "i \<le> lp'" unfolding lp'_def
          using lp_ge consume_trailing_closers_ge [of lp tx len] by simp
        have lp'_lt: "lp' < len" unfolding lp'_def using lp_lt by (rule consume_trailing_closers_less)
        define bl where "bl = sz_sub (lp' + 1) start_off"
        define bh' where "bh' = (if bl > 0 then bh @ [\<lparr>start_offset = start_off, length_c = bl\<rparr>] else bh)"
        define i' where "i' = lp' + 1"
        from loop_inv_boundary [OF inv lt punct lp'_ge lp'_lt len]
        have pos: "bl > 0" and inv': "loop_inv tx len i' (skip_spaces tx i' len) bh'"
          unfolding bl_def bh'_def i'_def by simp_all
        from lt punct is_term have eq: "sentence_loop tx len i start_off bh
            = sentence_loop tx len i' (skip_spaces tx i' len) bh'"
          by (subst sentence_loop.simps) (simp add: lp_def lp'_def bl_def bh'_def i'_def Let_def)
        from "1.IH"(1) [OF lt punct lp_def is_term lp'_def bl_def bh'_def i'_def inv' len] eq
        show ?thesis by simp
      qed
    qed
  qed
qed

section \<open>Texts without a terminal punctuation\<close>

lemma loop_inv_init: "loop_inv tx len 0 0 []"
  by (simp add: loop_inv_def well_formed_Nil)

lemma strlen_le: "strlen s \<le> length s"
  by (simp add: strlen_def length_takeWhile_le)

lemma strlen_pos_iff: "0 < strlen s \<longleftrightarrow> cstr s 0 \<noteq> CHR 0x00"
  by (cases s) (auto simp: strlen_def cstr_def)

lemma whitespace_not_nul: "is_whitespace c \<Longrightarrow> c \<noteq> CHR 0x00"
  by (auto simp: is_whitespace_def)

lemma strlen_whitespace:
  assumes "list_all is_whitespace s"
  shows "strlen s = length s"
proof -
  have "\<And>c. c \<in> set s \<Longrightarrow> c \<noteq> CHR 0x00"
    using assms whitespace_not_nul unfolding list_all_iff by blast
  then have "takeWhile (\<lambda>c. c \<noteq> CHR 0x00) s = s"
    by (intro takeWhile_eq_all_conv [THEN iffD2]) blast
  then show ?thesis unfolding strlen_def by (simp only:)
qed

lemma sentence_loop_no_terminal:
  assumes "no_terminal_punct tx len"
  shows "sentence_loop tx len i start_off bh =
           (if start_off < len then
              (let boundary_len = sz_sub len start_off in
               if boundary_len > 0
               then bh @ [\<lparr>start_offset = start_off, length_c = boundary_len\<rparr>]
               else bh)
            else bh)"
  using assms
proof (induction tx len i start_off bh rule: sentence_loop.induct)
  case (1 tx len i start_off bh)
  note nt = \<open>no_terminal_punct tx len\<close>
  show ?case
  proof (cases "i < len")
    case False
    then show ?thesis by (subst sentence_loop.simps) simp
  next
    case lt: True
    show ?thesis
    proof (cases "is_sentence_punct (tx i)")
      case False
      with lt have "sentence_loop tx len i start_off bh = sentence_loop tx len (i + 1) start_off bh"
        by (subst sentence_loop.simps) simp
      with "1.IH"(3) [OF lt False nt] show ?thesis by simp
    next
      case punct: True
      define lp where "lp = consume_multiple_punctuation tx i len"
      have "lp < len" unfolding lp_def using lt by (rule consume_multiple_punctuation_less)
      moreover have "is_sentence_punct (tx lp)"
        unfolding lp_def using punct by (rule consume_multiple_punctuation_punct)
      ultimately have nonterm: "\<not> is_end_of_sentence_heuristic tx lp len"
        using nt by (auto simp: no_terminal_punct_def list_all_iff)
      with lt punct have "sentence_loop tx len i start_off bh = sentence_loop tx len (lp + 1) start_off bh"
        by (subst sentence_loop.simps) (simp add: lp_def)
      with "1.IH"(2) [OF lt punct lp_def nonterm nt] show ?thesis by simp
    qed
  qed
qed

lemma single_chunk:
  assumes "0 < strlen s" and "strlen s < SIZE_MOD" and "no_terminal_punct (cstr s) (strlen s)"
  shows "a_sentence_chunker (Some s) = [\<lparr>start_offset = 0, length_c = strlen s\<rparr>]"
proof -
  have nz: "cstr s 0 \<noteq> CHR 0x00" using assms(1) by (simp add: strlen_pos_iff)
  have sub: "sz_sub (strlen s) 0 = strlen s" using assms(2) sz_sub_eq [of 0 "strlen s"] by simp
  show ?thesis
    using nz assms(1) sub
    by (simp add: a_sentence_chunker_def sentence_loop_no_terminal [OF assms(3)] Let_def)
qed

lemma whitespace_no_terminal:
  assumes "list_all is_whitespace s"
  shows "no_terminal_punct (cstr s) (strlen s)"
proof -
  have "\<not> is_sentence_punct (cstr s p)" if "p < strlen s" for p
  proof -
    from that strlen_le [of s] have "p < length s" by simp
    then have "is_whitespace (cstr s p)"
      using assms by (simp add: cstr_def list_all_length)
    then show ?thesis by (rule whitespace_not_punct)
  qed
  then show ?thesis by (simp add: no_terminal_punct_def list_all_iff)
qed

section \<open>Evaluation on concrete texts\<close>

lemmas char_class_defs = is_sentence_punct_def is_whitespace_def is_alpha_def isdigit_def
  isupper_def islower_def isspace_def is_closer_def tolower_def

lemmas seg_eval = a_sentence_chunker_def cstr_def strlen_def sentence_loop.simps
  consume_multiple_punctuation.simps consume_trailing_closers.simps skip_spaces.simps
  is_end_of_sentence_heuristic_def matches_abbreviation_def abbrev_start.simps
  is_just_digits_def digits_from.simps ordinal_word_start.simps int_cast_def int_wrap_def
  strcasecmp_eq_def
  ABBREVS_def sz_sub_def sz_add_def SIZE_MOD_def Let_def char_class_defs upt_conv_Cons

text \<open>
  At \<open>i = 2^31\<close> the cast \<^verbatim>\<open>(int)i\<close> is \<open>- 2^31\<close> and \<^verbatim>\<open>(int)i - 1\<close> wraps to \<open>2^31 - 1\<close>: the
  walk back starts at the byte before the dot, and \<^verbatim>\<open>Dr\<close> before the dot is recognised.
\<close>

lemma matches_abbreviation_at_int_min:
  "matches_abbreviation
     (\<lambda>k. if k = 2147483645 then CHR '' '' else if k = 2147483646 then CHR ''D''
          else if k = 2147483647 then CHR ''r'' else if k = 2147483648 then CHR ''.''
          else CHR 0x00) 2147483648"
  by (simp add: seg_eval)

section \<open>Claims about the first pass\<close>

text \<open>
  Claim C3, as the code has it: on \<^verbatim>\<open>1. First item 2. Second item.\<close> the first pass
  returns three chunks, \<^verbatim>\<open>1.\<close>, \<^verbatim>\<open>First item 2.\<close> and \<^verbatim>\<open>Second item.\<close>. The ordinal
  rule suppresses a dot after an all-digit word only when the next non-whitespace byte is
  the end of the text, a digit or a lower-case letter; here it is the upper-case \<^verbatim>\<open>F\<close>,
  then the upper-case \<^verbatim>\<open>S\<close>, so both dots end a sentence.
\<close>

theorem C3_ordinal_example_three_chunks:
  "a_sentence_chunker (Some ''1. First item 2. Second item.'') =
     [\<lparr>start_offset = 0, length_c = 2\<rparr>, \<lparr>start_offset = 3, length_c = 13\<rparr>,
      \<lparr>start_offset = 17, length_c = 12\<rparr>]"
  by (simp add: seg_eval)

text \<open>The result is not the single chunk covering the whole string that C3 states.\<close>

theorem C3_counterexample:
  "a_sentence_chunker (Some ''1. First item 2. Second item.'') \<noteq>
     [\<lparr>start_offset = 0, length_c = length ''1. First item 2. Second item.''\<rparr>]"
  by (simp add: seg_eval)

text \<open>
  Claim C4, as the code has it: for a non-empty text made of whitespace bytes only, the
  first pass returns one chunk, the whole text, and count 1: the loop never moves
  \<open>start_off\<close> from 0, and the leftover is appended whenever \<open>start_off < len\<close>.
\<close>

theorem C4_whitespace_text_single_chunk:
  assumes "s \<noteq> []" and "list_all is_whitespace s" and "length s < SIZE_MOD"
  shows "a_sentence_chunker (Some s) = [\<lparr>start_offset = 0, length_c = length s\<rparr>]"
proof -
  have len: "strlen s = length s" using assms(2) by (rule strlen_whitespace)
  have "0 < strlen s" using assms(1) len by simp
  moreover have "strlen s < SIZE_MOD" using assms(3) len by simp
  moreover have "no_terminal_punct (cstr s) (strlen s)" using assms(2) by (rule whitespace_no_terminal)
  ultimately show ?thesis using single_chunk [of s] len by simp
qed

theorem C4_witness:
  "[CHR '' '', CHR 0x09, CHR 0x0A] \<noteq> [] \<and> list_all is_whitespace [CHR '' '', CHR 0x09, CHR 0x0A]
   \<and> length [CHR '' '', CHR 0x09, CHR 0x0A] < SIZE_MOD
   \<and> a_sentence_chunker (Some [CHR '' '', CHR 0x09, CHR 0x0A]) = [\<lparr>start_offset = 0, length_c = 3\<rparr>]"
proof -
  have h: "[CHR '' '', CHR 0x09, CHR 0x0A] \<noteq> []" "list_all is_whitespace [CHR '' '', CHR 0x09, CHR 0x0A]"
    "length [CHR '' '', CHR 0x09, CHR 0x0A] < SIZE_MOD"
    by (simp_all add: is_whitespace_def SIZE_MOD_def)
  from C4_whitespace_text_single_chunk [OF h] h show ?thesis by simp
qed

text \<open>On the text of one space the result is not the empty sequence that C4 states.\<close>

theorem C4_counterexample:
  "'' '' \<noteq> [] \<and> list_all is_whitespace '' '' \<and> a_sentence_chunker (Some '' '') \<noteq> []"
  by (simp add: seg_eval)

text \<open>
  Claim C5, as the code has it: for a non-empty text in which no punctuation byte is
  classified as terminal, the first pass returns exactly one chunk, and it spans the
  whole text from offset 0, leading whitespace included.
\<close>

theorem C5_no_terminal_single_chunk:
  assumes "0 < strlen s" and "strlen s < SIZE_MOD" and "no_terminal_punct (cstr s) (strlen s)"
  shows "a_sentence_chunker (Some s) = [\<lparr>start_offset = 0, length_c = strlen s\<rparr>]"
  using assms by (rule single_chunk)

theorem C5_witness:
  "0 < strlen '' Dr. No'' \<and> strlen '' Dr. No'' < SIZE_MOD
   \<and> no_terminal_punct (cstr '' Dr. No'') (strlen '' Dr. No'')
   \<and> a_sentence_chunker (Some '' Dr. No'') = [\<lparr>start_offset = 0, length_c = 7\<rparr>]"
proof -
  have h: "0 < strlen '' Dr. No''" "strlen '' Dr. No'' < SIZE_MOD"
    "no_terminal_punct (cstr '' Dr. No'') (strlen '' Dr. No'')"
    by (simp_all add: no_terminal_punct_def seg_eval)
  have "strlen '' Dr. No'' = 7" by (simp add: strlen_def)
  with C5_no_terminal_single_chunk [OF h] h show ?thesis by simp
qed

text \<open>
  On the text \<^verbatim>\<open> a\<close> the first byte that is not whitespace is at index 1, and the chunk
  returned is not the one that starts there, as C5 states.
\<close>

theorem C5_counterexample:
  "0 < strlen '' a'' \<and> no_terminal_punct (cstr '' a'') (strlen '' a'')
   \<and> skip_spaces (cstr '' a'') 0 (strlen '' a'') = 1
   \<and> a_sentence_chunker (Some '' a'') \<noteq>
       [\<lparr>start_offset = skip_spaces (cstr '' a'') 0 (strlen '' a''),
         length_c = strlen '' a'' - skip_spaces (cstr '' a'') 0 (strlen '' a'')\<rparr>]"
  by (simp add: no_terminal_punct_def seg_eval)

text \<open>
  Claim C10: every chunk the first pass returns, other than the first, starts on a byte
  that is not whitespace; the first chunk starts at offset 0, whatever byte is there.
\<close>

theorem C10_later_chunks_start_non_whitespace:
  assumes "strlen s < SIZE_MOD"
  shows "(\<forall>c\<in>set (tl (a_sentence_chunker (Some s))). \<not> is_whitespace (cstr s (start_offset c)))
         \<and> (a_sentence_chunker (Some s) \<noteq> [] \<longrightarrow> start_offset (hd (a_sentence_chunker (Some s))) = 0)"
proof (cases "cstr s 0 = CHR 0x00")
  case True
  then show ?thesis by (simp add: a_sentence_chunker_def)
next
  case False
  from sentence_loop_post [OF loop_inv_init assms, of "cstr s"]
  have "loop_post (cstr s) (strlen s) (sentence_loop (cstr s) (strlen s) 0 0 [])" .
  with False show ?thesis by (simp add: a_sentence_chunker_def loop_post_def)
qed

theorem C10_witness:
  "strlen ''Hi.  Yo. Ok'' < SIZE_MOD
   \<and> a_sentence_chunker (Some ''Hi.  Yo. Ok'') =
       [\<lparr>start_offset = 0, length_c = 3\<rparr>, \<lparr>start_offset = 5, length_c = 3\<rparr>,
        \<lparr>start_offset = 9, length_c = 2\<rparr>]
   \<and> \<not> is_whitespace (cstr ''Hi.  Yo. Ok'' 5) \<and> \<not> is_whitespace (cstr ''Hi.  Yo. Ok'' 9)"
proof -
  have h: "strlen ''Hi.  Yo. Ok'' < SIZE_MOD" by (simp add: strlen_def SIZE_MOD_def)
  have e: "a_sentence_chunker (Some ''Hi.  Yo. Ok'') =
       [\<lparr>start_offset = 0, length_c = 3\<rparr>, \<lparr>start_offset = 5, length_c = 3\<rparr>,
        \<lparr>start_offset = 9, length_c = 2\<rparr>]" by (simp add: seg_eval)
  from C10_later_chunks_start_non_whitespace [OF h] h e show ?thesis by simp
qed

section \<open>The reads of the end-of-sentence heuristic\<close>

lemmas chk_eval = is_end_of_sentence_heuristic_chk_def matches_abbreviation_chk_def
  abbrev_start_chk.simps rd_def skip_spaces_chk.simps digits_from_chk.simps
  ordinal_word_start_chk.simps is_just_digits_chk_def int_cast_def int_wrap_def
  strcasecmp_eq_def ABBREVS_def
  cstr_def strlen_def sz_sub_def SIZE_MOD_def Let_def char_class_defs upt_conv_Cons

lemma rd_Some: "0 \<le> k \<Longrightarrow> k < int lim \<Longrightarrow> rd lim tx k = Some (tx (nat k))"
  by (simp add: rd_def)

lemma rd_nat: "k < lim \<Longrightarrow> rd lim tx (int k) = Some (tx k)"
  by (simp add: rd_def)

lemma skip_spaces_chk_eq:
  "len \<le> lim \<Longrightarrow> skip_spaces_chk lim tx j len = Some (skip_spaces tx j len)"
proof (induction tx j len rule: skip_spaces.induct)
  case (1 tx j len)
  show ?case
  proof (cases "j < len")
    case False
    then show ?thesis
      by (simp add: skip_spaces_chk.simps [of lim tx j] skip_spaces.simps [of tx j])
  next
    case True
    with 1(2) have r: "rd lim tx (int j) = Some (tx j)" by (simp add: rd_nat)
    show ?thesis
    proof (cases "is_whitespace (tx j)")
      case ws: True
      with True 1 r show ?thesis
        by (simp add: skip_spaces_chk.simps [of lim tx j] skip_spaces.simps [of tx j])
    next
      case False
      with True r show ?thesis
        by (simp add: skip_spaces_chk.simps [of lim tx j] skip_spaces.simps [of tx j])
    qed
  qed
qed

lemma abbrev_start_chk_eq:
  "start < int lim \<Longrightarrow> abbrev_start_chk lim tx start = Some (abbrev_start tx start)"
proof (induction tx start rule: abbrev_start.induct)
  case (1 tx start)
  show ?case
  proof (cases "start \<ge> 0")
    case False
    then show ?thesis
      by (simp add: abbrev_start_chk.simps [of lim tx start] abbrev_start.simps [of tx start])
  next
    case True
    with 1(2) have r: "rd lim tx start = Some (tx (nat start))" by (simp add: rd_Some)
    show ?thesis
    proof (cases "is_whitespace (tx (nat start))")
      case ws: True
      with True r show ?thesis
        by (simp add: abbrev_start_chk.simps [of lim tx start] abbrev_start.simps [of tx start])
    next
      case False
      with True 1 r show ?thesis
        by (simp add: abbrev_start_chk.simps [of lim tx start] abbrev_start.simps [of tx start])
    qed
  qed
qed

lemma abbrev_start_le: "abbrev_start tx start \<le> start"
proof (induction tx start rule: abbrev_start.induct)
  case (1 tx start)
  show ?case
  proof (cases "start \<ge> 0 \<and> \<not> is_whitespace (tx (nat start))")
    case True
    with 1 have "abbrev_start tx (start - 1) \<le> start - 1" by blast
    with True show ?thesis by (simp add: abbrev_start.simps [of tx start])
  next
    case False
    then show ?thesis by (auto simp: abbrev_start.simps [of tx start])
  qed
qed

lemma abbrev_start_ge: "- 1 \<le> start \<Longrightarrow> - 1 \<le> abbrev_start tx start"
proof (induction tx start rule: abbrev_start.induct)
  case (1 tx start)
  show ?case
  proof (cases "start \<ge> 0 \<and> \<not> is_whitespace (tx (nat start))")
    case True
    then have "- 1 \<le> start - 1" by simp
    with 1(1) True have "- 1 \<le> abbrev_start tx (start - 1)" by blast
    with True show ?thesis by (simp add: abbrev_start.simps [of tx start])
  next
    case False
    with 1(2) show ?thesis by (auto simp: abbrev_start.simps [of tx start])
  qed
qed

lemma abbrev_start_negative: "start < 0 \<Longrightarrow> abbrev_start tx start = start"
  by (simp add: abbrev_start.simps [of tx start])

lemma digits_from_chk_eq:
  "i \<le> lim \<Longrightarrow> digits_from_chk lim tx pos i = Some (digits_from tx pos i)"
proof (induction tx pos i rule: digits_from.induct)
  case (1 tx pos i)
  show ?case
  proof (cases "pos < i")
    case False
    then show ?thesis
      by (simp add: digits_from_chk.simps [of lim tx pos] digits_from.simps [of tx pos])
  next
    case True
    with 1(2) have r: "rd lim tx (int pos) = Some (tx pos)" by (simp add: rd_nat)
    show ?thesis
    proof (cases "isdigit (tx pos)")
      case d: True
      with True 1 r show ?thesis
        by (simp add: digits_from_chk.simps [of lim tx pos] digits_from.simps [of tx pos])
    next
      case False
      with True r show ?thesis
        by (simp add: digits_from_chk.simps [of lim tx pos] digits_from.simps [of tx pos])
    qed
  qed
qed

lemma ordinal_word_start_chk_eq:
  "w \<le> lim \<Longrightarrow> ordinal_word_start_chk lim tx w = Some (ordinal_word_start tx w)"
proof (induction tx w rule: ordinal_word_start.induct)
  case (1 tx w)
  show ?case
  proof (cases "w > 0")
    case False
    then show ?thesis
      by (simp add: ordinal_word_start_chk.simps [of lim tx 0] ordinal_word_start.simps [of tx 0])
  next
    case True
    with 1(2) have r: "rd lim tx (int w - 1) = Some (tx (w - 1))"
      using rd_nat [of "w - 1" lim tx] by (simp add: of_nat_diff)
    show ?thesis
    proof (cases "\<not> is_whitespace (tx (w - 1)) \<and> tx (w - 1) \<noteq> CHR ''.''")
      case c: True
      with True 1 r show ?thesis
        by (simp add: ordinal_word_start_chk.simps [of lim tx w] ordinal_word_start.simps [of tx w])
    next
      case False
      with True r show ?thesis
        by (auto simp: ordinal_word_start_chk.simps [of lim tx w] ordinal_word_start.simps [of tx w])
    qed
  qed
qed

lemma int_cast_le: "int_cast i \<le> int i"
proof -
  have "int (i mod 2 ^ 32) \<le> int i" by simp
  then show ?thesis by (auto simp: int_cast_def Let_def)
qed

lemma int_cast_range: "- (2 ^ 31) \<le> int_cast i \<and> int_cast i < 2 ^ 31"
proof -
  have "i mod 2 ^ 32 < 2 ^ 32" by simp
  then have "int (i mod 2 ^ 32) < int (2 ^ 32)" by (simp only: of_nat_less_iff)
  then have "int (i mod 2 ^ 32) < 2 ^ 32" by simp
  then show ?thesis by (auto simp: int_cast_def Let_def)
qed

lemma int_cast_min:
  assumes "int_cast i = - (2 ^ 31)"
  shows "2 ^ 31 \<le> int i"
proof -
  from assms have "int (i mod 2 ^ 32) = 2 ^ 31"
    by (auto simp: int_cast_def Let_def split: if_splits)
  moreover have "int (i mod 2 ^ 32) \<le> int i" by simp
  ultimately show ?thesis by simp
qed

lemma int_cast_small: "i < 2 ^ 31 \<Longrightarrow> int_cast i = int i"
  by (simp add: int_cast_def Let_def)

lemma int_wrap_id: "- (2 ^ 31) \<le> x \<Longrightarrow> x < 2 ^ 31 \<Longrightarrow> int_wrap x = x"
  by (simp add: int_wrap_def)

lemma int_wrap_below:
  assumes "- (2 ^ 32) - 2 ^ 31 \<le> x" and "x < - (2 ^ 31)"
  shows "int_wrap x = x + 2 ^ 32"
proof -
  have "(x + 2 ^ 31) mod 2 ^ 32 = (x + 2 ^ 31 + 2 ^ 32) mod 2 ^ 32"
    by (simp only: mod_add_self2)
  also have "\<dots> = x + 2 ^ 31 + 2 ^ 32" using assms by (intro mod_pos_pos_trivial) simp_all
  finally show ?thesis by (simp add: int_wrap_def)
qed

lemma int_wrap_above: "int_wrap (2 ^ 31) = - (2 ^ 31)"
  by (simp add: int_wrap_def)

text \<open>
  The window of \<^verbatim>\<open>matches_abbreviation\<close>: the walk back starts below \<open>i\<close>, and when
  \<open>abbrev_len\<close> is positive the bytes from \<open>first\<close> on, \<open>abbrev_len\<close> of them, lie below \<open>i\<close>.
\<close>

lemma abbrev_init_less: "int_wrap (int_cast i - 1) < int i"
proof (cases "int_cast i = - (2 ^ 31)")
  case True
  then have "int_wrap (int_cast i - 1) = 2 ^ 31 - 1" by (simp add: int_wrap_def)
  with int_cast_min [OF True] show ?thesis by simp
next
  case False
  with int_cast_range [of i] have "int_wrap (int_cast i - 1) = int_cast i - 1"
    by (intro int_wrap_id) simp_all
  with int_cast_le [of i] show ?thesis by simp
qed

lemma abbrev_window:
  fixes tx :: text_ptr and i :: nat
  defines "start \<equiv> abbrev_start tx (int_wrap (int_cast i - 1))"
  defines "first \<equiv> int_wrap (start + 1)"
  defines "abbrev_len \<equiv> int_wrap (int_cast i - first)"
  assumes pos: "0 < abbrev_len"
  shows "0 \<le> first \<and> first + abbrev_len \<le> int i"
proof (cases "int_cast i = - (2 ^ 31)")
  case False
  with int_cast_range [of i] have init: "int_wrap (int_cast i - 1) = int_cast i - 1"
    by (intro int_wrap_id) simp_all
  show ?thesis
  proof (cases "int_cast i - 1 < 0")
    case True
    then have "start = int_cast i - 1" by (simp add: start_def init abbrev_start_negative)
    then have "first = int_cast i"
      using int_cast_range [of i] by (simp add: first_def int_wrap_id)
    then have "abbrev_len = 0" by (simp add: abbrev_len_def int_wrap_def)
    with pos show ?thesis by simp
  next
    case nonneg: False
    then have lo: "- 1 \<le> start" unfolding start_def init by (intro abbrev_start_ge) simp
    have hi: "start \<le> int_cast i - 1" unfolding start_def init by (rule abbrev_start_le)
    have f: "first = start + 1"
      unfolding first_def using lo hi int_cast_range [of i] by (intro int_wrap_id) simp_all
    have "abbrev_len = int_cast i - first"
      unfolding abbrev_len_def using f lo hi int_cast_range [of i] by (intro int_wrap_id) simp_all
    with f lo int_cast_le [of i] show ?thesis by simp
  qed
next
  case True
  then have init: "int_wrap (int_cast i - 1) = 2 ^ 31 - 1" by (simp add: int_wrap_def)
  have lo: "- 1 \<le> start" unfolding start_def init by (intro abbrev_start_ge) simp
  have hi: "start \<le> 2 ^ 31 - 1" unfolding start_def init by (rule abbrev_start_le)
  consider (top) "start = 2 ^ 31 - 1" | (bottom) "start = - 1"
    | (mid) "0 \<le> start" "start \<le> 2 ^ 31 - 2"
    using lo hi by linarith
  then show ?thesis
  proof cases
    case top
    then have "first = - (2 ^ 31)" by (simp add: first_def int_wrap_def)
    with True have "abbrev_len = 0" by (simp add: abbrev_len_def int_wrap_def)
    with pos show ?thesis by simp
  next
    case bottom
    then have "first = 0" by (simp add: first_def int_wrap_def)
    with True have "abbrev_len = - (2 ^ 31)" by (simp add: abbrev_len_def int_wrap_def)
    with pos show ?thesis by simp
  next
    case mid
    have f: "first = start + 1"
      unfolding first_def using mid by (intro int_wrap_id) simp_all
    have "int_wrap (- (2 ^ 31) - first) = - (2 ^ 31) - first + 2 ^ 32"
      using f mid by (intro int_wrap_below) simp_all
    with True have "abbrev_len = 2 ^ 31 - first" by (simp add: abbrev_len_def)
    with f mid int_cast_min [OF True] show ?thesis by simp
  qed
qed

lemma those_map_Some:
  "(\<And>x. x \<in> set xs \<Longrightarrow> f x = Some (g x)) \<Longrightarrow> those (map f xs) = Some (map g xs)"
  by (induction xs) simp_all

lemma rd_succ: "k + 1 < lim \<Longrightarrow> rd lim tx (int k + 1) = Some (tx (k + 1))"
  by (simp add: rd_def nat_add_distrib)

lemma rd_pred: "0 < k \<Longrightarrow> k \<le> lim \<Longrightarrow> rd lim tx (int k - 1) = Some (tx (k - 1))"
  by (simp add: rd_def nat_diff_distrib')

lemma matches_abbreviation_chk_eq:
  assumes "i + 1 < lim"
  shows "matches_abbreviation_chk lim tx i = Some (matches_abbreviation tx i)"
proof (cases "i = 0")
  case True
  then show ?thesis by (simp add: matches_abbreviation_chk_def matches_abbreviation_def)
next
  case False
  let ?init = "int_wrap (int_cast i - 1)"
  let ?start = "abbrev_start tx ?init"
  let ?first = "int_wrap (?start + 1)"
  let ?abbrev_len = "int_wrap (int_cast i - ?first)"
  have s0: "?init < int lim" using abbrev_init_less [of i] assms by simp
  have st: "abbrev_start_chk lim tx ?init = Some ?start"
    using s0 by (rule abbrev_start_chk_eq)
  show ?thesis
  proof (cases "?abbrev_len \<le> 0")
    case True
    with False st show ?thesis
      by (simp add: matches_abbreviation_chk_def matches_abbreviation_def Let_def)
  next
    case pos: False
    then have "0 < ?abbrev_len" by simp
    from abbrev_window [OF this]
    have lo: "0 \<le> ?first" and hi: "?first + ?abbrev_len \<le> int i" by simp_all
    have r_next: "rd lim tx (int i + 1) = Some (tx (i + 1))"
      using assms by (rule rd_succ)
    have r_first: "rd lim tx ?first = Some (tx (nat ?first))"
      using lo hi pos assms by (intro rd_Some) simp_all
    have r_buf: "those (map (\<lambda>k. rd lim tx (?first + int k)) [0 ..< nat ?abbrev_len])
        = Some (map (\<lambda>k. tx (nat (?first + int k))) [0 ..< nat ?abbrev_len])"
    proof (rule those_map_Some)
      fix k assume "k \<in> set [0 ..< nat ?abbrev_len]"
      then have "int k < ?abbrev_len" by simp
      with lo hi assms show "rd lim tx (?first + int k) = Some (tx (nat (?first + int k)))"
        by (intro rd_Some) simp_all
    qed
    have plain_eq: "matches_abbreviation tx i =
        (if is_alpha (tx (i + 1)) then True
         else if ?abbrev_len = 1 \<and> isupper (tx (nat ?first)) then True
         else if ?abbrev_len = 1 \<and> \<not> is_whitespace (tx (i + 1)) then True
         else if ?abbrev_len \<ge> 32 then False
         else list_ex (\<lambda>a. strcasecmp_eq
                (map (\<lambda>k. tx (nat (?first + int k))) [0 ..< nat ?abbrev_len]) a) ABBREVS)"
      using False pos unfolding matches_abbreviation_def Let_def by (simp only: if_False)
    have chk_eq: "matches_abbreviation_chk lim tx i =
        do { nxt \<leftarrow> rd lim tx (int i + 1);
             if is_alpha nxt then Some True
             else
               do { upper1 \<leftarrow> (if ?abbrev_len = 1
                                then do { c \<leftarrow> rd lim tx ?first; Some (isupper c) }
                                else Some False);
                    if upper1 then Some True
                    else
                      do { flush1 \<leftarrow> (if ?abbrev_len = 1
                                       then do { c \<leftarrow> rd lim tx (int i + 1);
                                                 Some (\<not> is_whitespace c) }
                                       else Some False);
                           if flush1 then Some True
                           else if ?abbrev_len \<ge> 32 then Some False
                           else
                             do { buf \<leftarrow> those (map (\<lambda>k. rd lim tx (?first + int k))
                                                 [0 ..< nat ?abbrev_len]);
                                  Some (list_ex (\<lambda>a. strcasecmp_eq buf a) ABBREVS) } } } }"
      using False pos unfolding matches_abbreviation_chk_def Let_def st
      by (simp only: if_False bind.bind_lunit)
    show ?thesis
      unfolding chk_eq plain_eq r_next r_first r_buf
      by (simp only: bind.bind_lunit split: if_split) simp
  qed
qed

text \<open>
  The read of \<^verbatim>\<open>text[i+1]\<close> in \<^verbatim>\<open>matches_abbreviation\<close> is made whenever \<open>abbrev_len\<close> is
  positive. For \<open>0 < i < 2^31\<close> with a byte before \<open>i\<close> that is not whitespace it is
  positive, so with only the indices up to \<open>i\<close> readable the read is refused.
\<close>

lemma abbrev_start_step:
  "0 \<le> start \<Longrightarrow> \<not> is_whitespace (tx (nat start))
    \<Longrightarrow> abbrev_start tx start = abbrev_start tx (start - 1)"
  by (simp add: abbrev_start.simps [of tx start])

lemma matches_abbreviation_chk_last:
  assumes pos: "0 < i" and small: "i < 2 ^ 31" and nws: "\<not> is_whitespace (tx (i - 1))"
  shows "matches_abbreviation_chk (i + 1) tx i = None"
proof -
  let ?init = "int_wrap (int_cast i - 1)"
  let ?start = "abbrev_start tx ?init"
  let ?first = "int_wrap (?start + 1)"
  let ?abbrev_len = "int_wrap (int_cast i - ?first)"
  have ci: "int_cast i = int i" using small by (rule int_cast_small)
  have init: "?init = int i - 1"
    unfolding ci using pos small by (intro int_wrap_id) simp_all
  have st: "abbrev_start_chk (i + 1) tx ?init = Some ?start"
    unfolding init by (intro abbrev_start_chk_eq) simp
  have "nat (int i - 1) = i - 1" by (simp add: nat_diff_distrib')
  with nws pos have "abbrev_start tx (int i - 1) = abbrev_start tx (int i - 1 - 1)"
    by (intro abbrev_start_step) simp_all
  also have "\<dots> \<le> int i - 1 - 1" by (rule abbrev_start_le)
  finally have hi: "?start \<le> int i - 2" unfolding init by simp
  have lo: "- 1 \<le> ?start" unfolding init using pos by (intro abbrev_start_ge) simp
  have f: "?first = ?start + 1" using lo hi small by (intro int_wrap_id) simp_all
  have "int_wrap (int i - ?first) = int i - ?first"
    using f lo hi small by (intro int_wrap_id) simp_all
  with f hi have len: "\<not> ?abbrev_len \<le> 0" by (simp add: ci)
  have r: "rd (i + 1) tx (int i + 1) = None" by (simp add: rd_def)
  have "matches_abbreviation_chk (i + 1) tx i =
      (if ?abbrev_len \<le> 0 then Some False
       else do { nxt \<leftarrow> rd (i + 1) tx (int i + 1);
                 if is_alpha nxt then Some True
                 else
                   do { upper1 \<leftarrow> (if ?abbrev_len = 1
                                    then do { c \<leftarrow> rd (i + 1) tx ?first; Some (isupper c) }
                                    else Some False);
                        if upper1 then Some True
                        else
                          do { flush1 \<leftarrow> (if ?abbrev_len = 1
                                           then do { c \<leftarrow> rd (i + 1) tx (int i + 1);
                                                     Some (\<not> is_whitespace c) }
                                           else Some False);
                               if flush1 then Some True
                               else if ?abbrev_len \<ge> 32 then Some False
                               else
                                 do { buf \<leftarrow> those (map (\<lambda>k. rd (i + 1) tx (?first + int k))
                                                     [0 ..< nat ?abbrev_len]);
                                      Some (list_ex (\<lambda>a. strcasecmp_eq buf a) ABBREVS) } } } })"
    using pos unfolding matches_abbreviation_chk_def Let_def st
    by (simp only: bind.bind_lunit) simp
  also have "\<dots> = None" using len unfolding r by simp
  finally show ?thesis .
qed

lemma is_end_of_sentence_heuristic_chk_eq:
  assumes "i < len"
  shows "is_end_of_sentence_heuristic_chk (len + 1) tx i len
           = Some (is_end_of_sentence_heuristic tx i len)"
proof -
  have r_i: "rd (len + 1) tx (int i) = Some (tx i)" using assms by (simp add: rd_nat)
  have r_next: "rd (len + 1) tx (int i + 1) = Some (tx (i + 1))"
    using assms by (intro rd_succ) simp
  have r_prev: "0 < i \<Longrightarrow> rd (len + 1) tx (int i - 1) = Some (tx (i - 1))"
    using assms by (intro rd_pred) simp_all
  have ab: "matches_abbreviation_chk (len + 1) tx i = Some (matches_abbreviation tx i)"
    using assms by (intro matches_abbreviation_chk_eq) simp
  have ws: "ordinal_word_start_chk (len + 1) tx i = Some (ordinal_word_start tx i)"
    using assms by (intro ordinal_word_start_chk_eq) simp
  have dg: "\<And>w. is_just_digits_chk (len + 1) tx w i = Some (is_just_digits tx w i)"
    using assms by (simp add: is_just_digits_chk_def is_just_digits_def digits_from_chk_eq)
  have sk: "skip_spaces_chk (len + 1) tx (i + 1) len = Some (skip_spaces tx (i + 1) len)"
    by (intro skip_spaces_chk_eq) simp
  have r_j: "\<And>j. \<not> len \<le> j \<Longrightarrow> rd (len + 1) tx (int j) = Some (tx j)"
    by (simp add: rd_nat)
  show ?thesis
    unfolding is_end_of_sentence_heuristic_chk_def is_end_of_sentence_heuristic_def Let_def
      r_i r_next ab ws dg sk bind.bind_lunit
    using r_prev r_j by (auto simp del: One_nat_def)
qed

lemma is_end_of_sentence_heuristic_chk_last:
  assumes dot: "tx i = CHR ''.''" and pos: "0 < i" and small: "i < 2 ^ 31"
    and nws: "\<not> is_whitespace (tx (i - 1))"
  shows "is_end_of_sentence_heuristic_chk (i + 1) tx i (i + 1) = None"
proof -
  have r_i: "rd (i + 1) tx (int i) = Some (tx i)" by (simp add: rd_nat)
  have e: "sz_sub (i + 1) 1 = i mod SIZE_MOD" by (simp add: sz_sub_def)
  have "i mod SIZE_MOD \<le> i" by (rule mod_less_eq_dividend)
  then have guard: "\<not> i < sz_sub (i + 1) 1" unfolding e by (rule leD)
  have ab: "matches_abbreviation_chk (i + 1) tx i = None"
    using pos small nws by (rule matches_abbreviation_chk_last)
  show ?thesis
    unfolding is_end_of_sentence_heuristic_chk_def r_i bind.bind_lunit
    using dot guard ab by simp
qed

text \<open>
  Claim C7, as the code has it. Applied at an index \<open>p < L\<close> of a text of length \<open>L\<close>, the
  end-of-sentence heuristic reads only indices up to \<open>L\<close>, that is, bytes of the text or its
  NUL terminator: with the \<open>L + 1\<close> bytes of the terminated string readable no read is
  refused, and the result is that of the heuristic. The read of \<^verbatim>\<open>text[p+1]\<close> in the decimal
  rule is behind the check \<open>p < L - 1\<close>; the one in \<^verbatim>\<open>matches_abbreviation\<close> has no bound
  check (the function is not given the length). So for a dot at the last index
  \<open>p = L - 1\<close>, with \<open>0 < p < 2^31\<close> and a byte before it that is not whitespace, the
  terminator at index \<open>L\<close> is read: with only the \<open>L\<close> bytes of the text readable, the
  abbreviation check and the heuristic have a read refused.
\<close>

theorem C7_heuristic_reads_within_terminated_string:
  assumes "p < L" and "L < SIZE_MOD"
  shows "is_end_of_sentence_heuristic_chk (L + 1) tx p L = Some (is_end_of_sentence_heuristic tx p L)
         \<and> (tx p = CHR ''.'' \<and> p + 1 = L \<and> 0 < p \<and> p < 2 ^ 31 \<and> \<not> is_whitespace (tx (p - 1))
              \<longrightarrow> matches_abbreviation_chk L tx p = None
                  \<and> is_end_of_sentence_heuristic_chk L tx p L = None)"
proof (intro conjI impI)
  show "is_end_of_sentence_heuristic_chk (L + 1) tx p L = Some (is_end_of_sentence_heuristic tx p L)"
    using assms(1) by (rule is_end_of_sentence_heuristic_chk_eq)
next
  assume last: "tx p = CHR ''.'' \<and> p + 1 = L \<and> 0 < p \<and> p < 2 ^ 31 \<and> \<not> is_whitespace (tx (p - 1))"
  then have L: "L = p + 1" by simp
  from last show "matches_abbreviation_chk L tx p = None"
    unfolding L by (intro matches_abbreviation_chk_last) simp_all
  from last show "is_end_of_sentence_heuristic_chk L tx p L = None"
    unfolding L by (intro is_end_of_sentence_heuristic_chk_last) simp_all
qed

theorem C7_witness:
  "(2 :: nat) < strlen ''Hi.'' \<and> strlen ''Hi.'' < SIZE_MOD
   \<and> cstr ''Hi.'' 2 = CHR ''.'' \<and> (2 :: nat) + 1 = strlen ''Hi.''
   \<and> \<not> is_whitespace (cstr ''Hi.'' (2 - 1))
   \<and> is_end_of_sentence_heuristic_chk (strlen ''Hi.'' + 1) (cstr ''Hi.'') 2 (strlen ''Hi.'') = Some True
   \<and> is_end_of_sentence_heuristic (cstr ''Hi.'') 2 (strlen ''Hi.'')
   \<and> matches_abbreviation_chk (strlen ''Hi.'') (cstr ''Hi.'') 2 = None
   \<and> is_end_of_sentence_heuristic_chk (strlen ''Hi.'') (cstr ''Hi.'') 2 (strlen ''Hi.'') = None"
proof -
  have h: "(2 :: nat) < strlen ''Hi.''" "strlen ''Hi.'' < SIZE_MOD"
    by (simp_all add: strlen_def SIZE_MOD_def)
  have g: "cstr ''Hi.'' 2 = CHR ''.''" "(2 :: nat) + 1 = strlen ''Hi.''"
    "\<not> is_whitespace (cstr ''Hi.'' (2 - 1))"
    by (simp_all add: cstr_def strlen_def is_whitespace_def)
  have e: "is_end_of_sentence_heuristic (cstr ''Hi.'') 2 (strlen ''Hi.'')" by (simp add: seg_eval)
  from C7_heuristic_reads_within_terminated_string [OF h, of "cstr ''Hi.''"] h g e
  show ?thesis by simp
qed

text \<open>
  On \<^verbatim>\<open>Hi.\<close> with only the indices below \<open>L = 3\<close> readable, the heuristic at the last index
  has a read refused: the abbreviation check reads index \<open>L\<close>, which C7 states it does not.
\<close>

theorem C7_counterexample:
  "(2 :: nat) = strlen ''Hi.'' - 1
   \<and> is_end_of_sentence_heuristic_chk (strlen ''Hi.'') (cstr ''Hi.'') 2 (strlen ''Hi.'') = None
   \<and> matches_abbreviation_chk (strlen ''Hi.'') (cstr ''Hi.'') 2 = None
   \<and> matches_abbreviation_chk (strlen ''Hi.'' + 1) (cstr ''Hi.'') 2 = Some False"
  by (simp add: chk_eval)

section \<open>The loop of the second pass: an invariant rule\<close>

lemma backward_merge_cases:
  "backward_merge cur mx i buf =
     (if 0 < i then
        (if buf = [] then Inl EmptyBufferAccess
         else if sz_sub (sz_add (start_offset cur) (length_c cur)) (start_offset (last buf)) \<le> mx
         then Inr (True, butlast buf @
                [(last buf)\<lparr>length_c := sz_sub (sz_add (start_offset cur) (length_c cur))
                                              (start_offset (last buf))\<rparr>])
         else Inr (False, buf))
      else Inr (False, buf))"
  by (simp add: backward_merge_def Let_def)

text \<open>
  An invariant rule for the loop of the second pass: an invariant that holds at the start
  and is kept by each of the five ways through the loop body holds for the result, and
  the empty-buffer access does not happen.
\<close>

lemma rechunk_loop_rule:
  assumes init: "I i buf"
    and in_range: "\<And>i buf. I i buf \<Longrightarrow> i < length cs \<Longrightarrow> mn \<le> length_c (cs ! i)
          \<Longrightarrow> length_c (cs ! i) \<le> mx \<Longrightarrow> I (i + 1) (buf @ [cs ! i])"
    and nonempty: "\<And>i buf. I i buf \<Longrightarrow> i < length cs \<Longrightarrow> 0 < i \<Longrightarrow> buf \<noteq> []"
    and backward: "\<And>i buf. I i buf \<Longrightarrow> i < length cs \<Longrightarrow> length_c (cs ! i) < mn \<Longrightarrow> 0 < i
          \<Longrightarrow> buf \<noteq> []
          \<Longrightarrow> sz_sub (sz_add (start_offset (cs ! i)) (length_c (cs ! i))) (start_offset (last buf)) \<le> mx
          \<Longrightarrow> I (i + 1) (butlast buf @
                [(last buf)\<lparr>length_c := sz_sub (sz_add (start_offset (cs ! i)) (length_c (cs ! i)))
                                              (start_offset (last buf))\<rparr>])"
    and forward: "\<And>i buf. I i buf \<Longrightarrow> i < length cs \<Longrightarrow> length_c (cs ! i) < mn
          \<Longrightarrow> i + 1 < length cs \<Longrightarrow> forward_combined (cs ! i) (cs ! (i + 1)) \<le> mx
          \<Longrightarrow> I (i + 2) (buf @ [\<lparr>start_offset = start_offset (cs ! i),
                                 length_c = forward_combined (cs ! i) (cs ! (i + 1))\<rparr>])"
    and as_is: "\<And>i buf. I i buf \<Longrightarrow> i < length cs \<Longrightarrow> length_c (cs ! i) < mn
          \<Longrightarrow> \<not> (i + 1 < length cs \<and> forward_combined (cs ! i) (cs ! (i + 1)) \<le> mx)
          \<Longrightarrow> I (i + 1) (buf @ [cs ! i])"
    and split: "\<And>i buf. I i buf \<Longrightarrow> i < length cs \<Longrightarrow> mn \<le> length_c (cs ! i)
          \<Longrightarrow> mx < length_c (cs ! i) \<Longrightarrow> I (i + 1) (split_loop tx mn mx (cs ! i) buf)"
  shows "\<exists>out k. rechunk_loop tx cs mn mx i buf = Inr out \<and> length cs \<le> k \<and> I k out"
  using init
proof (induction "length cs - i" arbitrary: i buf rule: less_induct)
  case less
  note I = \<open>I i buf\<close>
  note IH = less.hyps
  show ?case
  proof (cases "i < length cs")
    case False
    then have "rechunk_loop tx cs mn mx i buf = Inr buf" by (subst rechunk_loop.simps) simp
    moreover have "length cs \<le> i" using False by simp
    ultimately show ?thesis using I by blast
  next
    case lt: True
    then have d1: "length cs - (i + 1) < length cs - i" by simp
    define cur where "cur = cs ! i"
    consider (a) "mn \<le> length_c cur" "length_c cur \<le> mx"
      | (b) "length_c cur < mn"
      | (c) "mn \<le> length_c cur" "mx < length_c cur"
      by linarith
    then show ?thesis
    proof cases
      case a
      then have eq: "rechunk_loop tx cs mn mx i buf = rechunk_loop tx cs mn mx (i + 1) (buf @ [cur])"
        using lt by (subst rechunk_loop.simps) (simp add: cur_def Let_def)
      have "I (i + 1) (buf @ [cur])" using in_range [OF I lt] a by (simp add: cur_def)
      from IH [OF d1 this] eq show ?thesis by simp
    next
      case c
      then have eq: "rechunk_loop tx cs mn mx i buf
          = rechunk_loop tx cs mn mx (i + 1) (split_loop tx mn mx cur buf)"
        using lt by (subst rechunk_loop.simps) (simp add: cur_def Let_def)
      have "I (i + 1) (split_loop tx mn mx cur buf)" using split [OF I lt] c by (simp add: cur_def)
      from IH [OF d1 this] eq show ?thesis by simp
    next
      case b
      define comb where "comb = sz_sub (sz_add (start_offset cur) (length_c cur)) (start_offset (last buf))"
      show ?thesis
      proof (cases "0 < i \<and> comb \<le> mx")
        case True
        then have ne: "buf \<noteq> []" using nonempty [OF I lt] by simp
        define buf1 where "buf1 = butlast buf @ [(last buf)\<lparr>length_c := comb\<rparr>]"
        have bm: "backward_merge cur mx i buf = Inr (True, buf1)"
          using True ne by (simp add: backward_merge_cases comb_def buf1_def)
        then have eq: "rechunk_loop tx cs mn mx i buf = rechunk_loop tx cs mn mx (i + 1) buf1"
          using lt b by (subst rechunk_loop.simps) (simp add: cur_def Let_def)
        have "I (i + 1) buf1"
          using backward [OF I lt] b True ne by (simp add: cur_def comb_def buf1_def)
        from IH [OF d1 this] eq show ?thesis by simp
      next
        case False
        have bm: "backward_merge cur mx i buf = Inr (False, buf)"
        proof (cases "0 < i")
          case True
          then have "buf \<noteq> []" using nonempty [OF I lt] by simp
          with True False show ?thesis by (simp add: backward_merge_cases comb_def)
        next
          case False
          then show ?thesis by (simp add: backward_merge_cases)
        qed
        show ?thesis
        proof (cases "i + 1 < length cs \<and> forward_combined cur (cs ! (i + 1)) \<le> mx")
          case True
          then have "i + 1 < length cs" by blast
          then have d2: "length cs - (i + 2) < length cs - i" by arith
          define m where "m = \<lparr>start_offset = start_offset cur,
                                 length_c = forward_combined cur (cs ! (i + 1))\<rparr>"
          have eq: "rechunk_loop tx cs mn mx i buf = rechunk_loop tx cs mn mx (i + 2) (buf @ [m])"
            using lt b bm True by (subst rechunk_loop.simps) (simp add: cur_def m_def Let_def)
          have "I (i + 2) (buf @ [m])"
            using forward [OF I lt] b True by (simp add: cur_def m_def)
          from IH [OF d2 this] eq show ?thesis by simp
        next
          case False
          have eq: "rechunk_loop tx cs mn mx i buf = rechunk_loop tx cs mn mx (i + 1) (buf @ [cur])"
            using lt b bm False by (subst rechunk_loop.simps) (auto simp add: cur_def Let_def)
          have "I (i + 1) (buf @ [cur])" using as_is [OF I lt] b False by (simp add: cur_def)
          from IH [OF d1 this] eq show ?thesis by simp
        qed
      qed
    qed
  qed
qed

section \<open>Split points and the pieces of a split chunk\<close>

lemma set_covered_indices:
  "set (covered_indices cs) = (\<Union>c\<in>set cs. {start_offset c ..< chunk_end c})"
  by (simp add: covered_indices_def chunk_end_def)

lemma covered_indices_append:
  "covered_indices (xs @ ys) = covered_indices xs @ covered_indices ys"
  by (simp add: covered_indices_def)

lemma well_formed_Cons:
  "well_formed L (c # cs) =
     (0 < length_c c \<and> chunk_end c \<le> L \<and> (\<forall>b\<in>set cs. chunk_end c \<le> start_offset b)
      \<and> well_formed L cs)"
  by (auto simp: well_formed_def)

lemma well_formed_append:
  "well_formed L (xs @ ys) =
     (well_formed L xs \<and> well_formed L ys
      \<and> (\<forall>a\<in>set xs. \<forall>b\<in>set ys. chunk_end a \<le> start_offset b))"
  by (auto simp: well_formed_def sorted_wrt_append)

lemma scan_backward_Some: "scan_backward tx cs j = Some k \<Longrightarrow> is_whitespace (tx k)"
proof (induction tx cs j rule: scan_backward.induct)
  case (1 tx cs j)
  from 1(2) show ?case
    by (subst (asm) scan_backward.simps) (auto split: if_splits intro: 1(1))
qed

lemma scan_forward_Some: "scan_forward tx ce j = Some k \<Longrightarrow> is_whitespace (tx k)"
proof (induction tx ce j rule: scan_forward.induct)
  case (1 tx ce j)
  from 1(2) show ?case
    by (subst (asm) scan_forward.simps) (auto split: if_splits intro: 1(1))
qed

lemma adjust_for_token_boundary_inside:
  assumes "s < adjust_for_token_boundary tx s e i" and "adjust_for_token_boundary tx s e i < e"
  shows "is_whitespace (tx (adjust_for_token_boundary tx s e i))"
proof (cases "i \<le> s \<or> e \<le> i")
  case True
  then have "adjust_for_token_boundary tx s e i = i" by (auto simp: adjust_for_token_boundary_def)
  with assms True show ?thesis by auto
next
  case False
  show ?thesis
  proof (cases "scan_backward tx s i")
    case (Some j)
    with False have "adjust_for_token_boundary tx s e i = j"
      by (auto simp: adjust_for_token_boundary_def)
    with Some scan_backward_Some show ?thesis by simp
  next
    case None
    show ?thesis
    proof (cases "scan_forward tx e i")
      case (Some j)
      with None False have "adjust_for_token_boundary tx s e i = j"
        by (auto simp: adjust_for_token_boundary_def)
      with Some scan_forward_Some show ?thesis by simp
    next
      case None
      with \<open>scan_backward tx s i = None\<close> False have "adjust_for_token_boundary tx s e i = 0"
        by (auto simp: adjust_for_token_boundary_def)
      with assms(1) show ?thesis by simp
    qed
  qed
qed

lemma split_ok_end: "split_ok tx s e e"
  by (simp add: split_ok_def)

lemma split_ok_accept_adjusted: "split_ok tx s e (accept_adjusted tx s e i)"
  using adjust_for_token_boundary_inside [of s tx e i]
  by (auto simp: split_ok_def accept_adjusted_def Let_def)

lemma find_split_point_ok: "split_ok tx s (sz_add s l) (find_split_point tx s l mn mx)"
  unfolding find_split_point_def Let_def
  by (simp add: split_ok_end split_ok_accept_adjusted split: option.split)

lemma split_step_Some:
  assumes "split_step tx mn mx r = Some (c, r')"
  shows "start_offset c = start_offset r"
    and "length_c c = start_offset r' - start_offset r"
    and "length_c r' = sz_add (start_offset r) (length_c r) - start_offset r'"
    and "start_offset r < start_offset r'"
    and "start_offset r' < sz_add (start_offset r) (length_c r)"
    and "is_whitespace (tx (start_offset r'))"
proof -
  let ?sp = "find_split_point tx (start_offset r) (length_c r) mn mx"
  let ?e = "sz_add (start_offset r) (length_c r)"
  from assms have inside: "start_offset r < ?sp" "?sp < ?e"
    and c: "c = \<lparr>start_offset = start_offset r, length_c = sz_sub ?sp (start_offset r)\<rparr>"
    and r': "r' = \<lparr>start_offset = ?sp, length_c = sz_sub ?e ?sp\<rparr>"
    by (auto simp: split_step_def Let_def split: if_splits)
  have e_lt: "?e < SIZE_MOD" by (rule sz_add_less)
  have s1: "sz_sub ?sp (start_offset r) = ?sp - start_offset r"
    using inside e_lt by (intro sz_sub_eq) arith+
  have s2: "sz_sub ?e ?sp = ?e - ?sp"
    using inside e_lt by (intro sz_sub_eq) arith+
  show "start_offset c = start_offset r" using c by simp
  show "length_c c = start_offset r' - start_offset r" using c r' s1 by simp
  show "length_c r' = ?e - start_offset r'" using r' s2 by simp
  show "start_offset r < start_offset r'" using r' inside by simp
  show "start_offset r' < ?e" using r' inside by simp
  from find_split_point_ok [of tx "start_offset r" "length_c r" mn mx] inside
  have "is_whitespace (tx ?sp)" by (auto simp: split_ok_def)
  then show "is_whitespace (tx (start_offset r'))" using r' by simp
qed

lemma split_loop_prepend:
  "split_loop tx mn mx r (xs @ buf) = xs @ split_loop tx mn mx r buf"
proof (induction tx mn mx r buf arbitrary: xs rule: split_loop.induct)
  case (1 tx mn mx r buf)
  show ?case
  proof (cases "length_c r > mx")
    case False
    then show ?thesis
      by (simp add: split_loop.simps [of tx mn mx r])
  next
    case gt: True
    show ?thesis
    proof (cases "split_step tx mn mx r")
      case None
      with gt show ?thesis by (simp add: split_loop.simps [of tx mn mx r])
    next
      case (Some p)
      obtain c r' where p: "p = (c, r')" by (cases p)
      from "1.IH" [OF gt Some p [symmetric], of xs]
      have "split_loop tx mn mx r' (xs @ buf @ [c]) = xs @ split_loop tx mn mx r' (buf @ [c])" .
      with gt Some p show ?thesis by (simp add: split_loop.simps [of tx mn mx r])
    qed
  qed
qed

lemma split_loop_append:
  "split_loop tx mn mx r buf = buf @ split_loop tx mn mx r []"
  using split_loop_prepend [of tx mn mx r buf "[]"] by simp

lemma split_loop_stop:
  assumes "\<not> length_c r > mx \<or> split_step tx mn mx r = None"
  shows "split_loop tx mn mx r [] = [r]"
  using assms by (auto simp: split_loop.simps [of tx mn mx r])

lemma split_loop_step:
  assumes "length_c r > mx" and "split_step tx mn mx r = Some (c, r')"
  shows "split_loop tx mn mx r [] = c # split_loop tx mn mx r' []"
  using assms split_loop_append [of tx mn mx r' "[c]"]
  by (simp add: split_loop.simps [of tx mn mx r])

text \<open>The pieces of one chunk that lies within the text.\<close>

lemma split_loop_pieces:
  assumes "chunk_end r \<le> L" and "L < SIZE_MOD" and "0 < length_c r"
  shows "split_loop tx mn mx r [] \<noteq> []
         \<and> start_offset (hd (split_loop tx mn mx r [])) = start_offset r
         \<and> chunk_end (last (split_loop tx mn mx r [])) = chunk_end r
         \<and> well_formed L (split_loop tx mn mx r [])
         \<and> (\<forall>c\<in>set (split_loop tx mn mx r []). start_offset r \<le> start_offset c)
         \<and> set (covered_indices (split_loop tx mn mx r [])) = {start_offset r ..< chunk_end r}"
  using assms
proof (induction "length_c r" arbitrary: r rule: less_induct)
  case less
  note r = less.prems
  show ?case
  proof (cases "length_c r > mx \<and> split_step tx mn mx r \<noteq> None")
    case False
    then have "\<not> length_c r > mx \<or> split_step tx mn mx r = None" by blast
    then have "split_loop tx mn mx r [] = [r]" by (rule split_loop_stop)
    with r show ?thesis
      by (simp add: well_formed_Cons well_formed_Nil set_covered_indices)
  next
    case True
    then obtain c r' where st: "split_step tx mn mx r = Some (c, r')" by auto
    with True have eq: "split_loop tx mn mx r [] = c # split_loop tx mn mx r' []"
      by (intro split_loop_step) auto
    have nowrap: "sz_add (start_offset r) (length_c r) = chunk_end r"
      using r(1,2) sz_add_eq [of "start_offset r" "length_c r"] by (simp add: chunk_end_def)
    note ss = split_step_Some [OF st, unfolded nowrap]
    have dec: "length_c r' < length_c r" using st by (rule split_step_decreases)
    have end': "chunk_end r' = chunk_end r" using ss by (simp add: chunk_end_def)
    have endc: "chunk_end c = start_offset r'" using ss by (simp add: chunk_end_def)
    have pos': "0 < length_c r'" using ss by simp
    have posc: "0 < length_c c" using ss by simp
    from less.hyps [OF dec] end' r(1,2) pos'
    have IH: "split_loop tx mn mx r' [] \<noteq> []"
      "start_offset (hd (split_loop tx mn mx r' [])) = start_offset r'"
      "chunk_end (last (split_loop tx mn mx r' [])) = chunk_end r"
      "well_formed L (split_loop tx mn mx r' [])"
      "\<forall>c\<in>set (split_loop tx mn mx r' []). start_offset r' \<le> start_offset c"
      "set (covered_indices (split_loop tx mn mx r' [])) = {start_offset r' ..< chunk_end r}"
      by simp_all
    have wf: "well_formed L (c # split_loop tx mn mx r' [])"
      unfolding well_formed_Cons using posc endc IH(4,5) ss(5) r(1) by auto
    have cov: "set (covered_indices (c # split_loop tx mn mx r' [])) = {start_offset r ..< chunk_end r}"
    proof -
      have "set (covered_indices (c # split_loop tx mn mx r' []))
            = {start_offset c ..< chunk_end c} \<union> {start_offset r' ..< chunk_end r}"
        using IH(6) by (simp add: set_covered_indices)
      also have "\<dots> = {start_offset r ..< start_offset r'} \<union> {start_offset r' ..< chunk_end r}"
        using ss(1) endc by simp
      also have "\<dots> = {start_offset r ..< chunk_end r}"
        using ss(4,5) by auto
      finally show ?thesis .
    qed
    have lo: "\<forall>d\<in>set (c # split_loop tx mn mx r' []). start_offset r \<le> start_offset d"
      using ss(1,4) IH(5) by auto
    show ?thesis unfolding eq using IH(1,3) ss(1) wf cov lo by simp
  qed
qed

section \<open>The second pass keeps a well-formed sequence well formed\<close>

lemma well_formed_end_le_last:
  assumes "well_formed L buf" and "a \<in> set buf"
  shows "chunk_end a \<le> chunk_end (last buf)"
proof -
  from assms(2) have ne: "buf \<noteq> []" by auto
  then have split: "buf = butlast buf @ [last buf]" by simp
  from assms(2) split have "a \<in> set (butlast buf) \<or> a = last buf"
    by (metis Un_iff empty_iff insert_iff list.set(1) list.set(2) set_append)
  then show ?thesis
  proof
    assume "a \<in> set (butlast buf)"
    moreover from assms(1) split have "well_formed L (butlast buf @ [last buf])" by simp
    ultimately have "chunk_end a \<le> start_offset (last buf)"
      unfolding well_formed_snoc by blast
    then show ?thesis by (simp add: chunk_end_def)
  next
    assume "a = last buf"
    then show ?thesis by simp
  qed
qed


lemma well_formed_nth:
  assumes "well_formed L cs" and "i < length cs"
  shows "0 < length_c (cs ! i)" and "chunk_end (cs ! i) \<le> L"
  using assms by (simp_all add: well_formed_def list_all_length)

lemma well_formed_nth_less:
  assumes "well_formed L cs" and "i < j" and "j < length cs"
  shows "chunk_end (cs ! i) \<le> start_offset (cs ! j)"
  using assms sorted_wrt_nth_less [of "\<lambda>a b. chunk_end a \<le> start_offset b" cs i j]
  by (simp add: well_formed_def)

lemma well_formed_nth_le:
  assumes "well_formed L cs" and "i \<le> j" and "j < length cs"
  shows "start_offset (cs ! i) \<le> start_offset (cs ! j)" and "chunk_end (cs ! i) \<le> chunk_end (cs ! j)"
proof -
  have "start_offset (cs ! i) \<le> start_offset (cs ! j) \<and> chunk_end (cs ! i) \<le> chunk_end (cs ! j)"
  proof (cases "i = j")
    case True
    then show ?thesis by simp
  next
    case False
    with assms(2) have "i < j" by simp
    from well_formed_nth_less [OF assms(1) this assms(3)]
    show ?thesis by (simp add: chunk_end_def)
  qed
  then show "start_offset (cs ! i) \<le> start_offset (cs ! j)"
    and "chunk_end (cs ! i) \<le> chunk_end (cs ! j)" by simp_all
qed


lemma rechunk_inv_init: "rechunk_inv L cs 0 []"
  by (simp add: rechunk_inv_def well_formed_Nil covered_indices_def)

lemma rechunk_inv_before:
  assumes wf: "well_formed L cs" and inv: "rechunk_inv L cs i buf" and lt: "i < length cs"
    and a: "a \<in> set buf"
  shows "chunk_end a \<le> start_offset (cs ! i)"
proof -
  from a inv have pos: "0 < i" by (auto simp: rechunk_inv_def)
  with inv have "well_formed L buf" and "chunk_end (last buf) = chunk_end (cs ! (i - 1))"
    by (simp_all add: rechunk_inv_def)
  with a well_formed_end_le_last [of L buf a] have "chunk_end a \<le> chunk_end (cs ! (i - 1))" by simp
  also have "\<dots> \<le> start_offset (cs ! i)"
    using pos lt by (intro well_formed_nth_less [OF wf]) simp_all
  finally show ?thesis .
qed

lemma covered_take_step:
  assumes wf: "well_formed L cs" and ij: "i \<le> j" and j: "j < length cs"
  shows "set (covered_indices (take (j + 1) cs))
           \<subseteq> set (covered_indices (take i cs)) \<union> {start_offset (cs ! i) ..< chunk_end (cs ! j)}"
proof
  fix x assume "x \<in> set (covered_indices (take (j + 1) cs))"
  then obtain c where c: "c \<in> set (take (j + 1) cs)" and x: "start_offset c \<le> x" "x < chunk_end c"
    by (auto simp: set_covered_indices)
  from c obtain k where k: "k < j + 1" "k < length cs" "c = cs ! k"
    by (auto simp: in_set_conv_nth)
  show "x \<in> set (covered_indices (take i cs)) \<union> {start_offset (cs ! i) ..< chunk_end (cs ! j)}"
  proof (cases "k < i")
    case True
    with k have "c \<in> set (take i cs)" by (auto simp: in_set_conv_nth intro!: exI [of _ k])
    with x show ?thesis by (auto simp: set_covered_indices)
  next
    case False
    then have ik: "i \<le> k" by simp
    from k have kj: "k \<le> j" by simp
    have "start_offset (cs ! i) \<le> start_offset (cs ! k)"
      using well_formed_nth_le(1) [OF wf ik k(2)] .
    moreover have "chunk_end (cs ! k) \<le> chunk_end (cs ! j)"
      using well_formed_nth_le(2) [OF wf kj j] .
    ultimately show ?thesis using x k(3) by auto
  qed
qed

lemma rechunk_inv_append:
  assumes wf: "well_formed L cs" and inv: "rechunk_inv L cs i buf"
    and ij: "i \<le> j" and j: "j < length cs"
    and sc: "start_offset c = start_offset (cs ! i)" and ec: "chunk_end c = chunk_end (cs ! j)"
  shows "rechunk_inv L cs (j + 1) (buf @ [c])"
proof -
  from ij j have i: "i < length cs" by simp
  have pos_i: "0 < length_c (cs ! i)" using well_formed_nth(1) [OF wf i] .
  have "chunk_end (cs ! i) \<le> chunk_end (cs ! j)" using well_formed_nth_le(2) [OF wf ij j] .
  with pos_i sc ec have posc: "0 < length_c c" by (simp add: chunk_end_def)
  have endc: "chunk_end c \<le> L" using ec well_formed_nth(2) [OF wf j] by simp
  have before: "\<forall>a\<in>set buf. chunk_end a \<le> start_offset c"
    using rechunk_inv_before [OF wf inv i] sc by simp
  have wfb: "well_formed L (buf @ [c])"
    unfolding well_formed_snoc using inv posc endc before by (simp add: rechunk_inv_def)
  have hd: "start_offset (hd (buf @ [c])) = start_offset (hd cs)"
  proof (cases "i = 0")
    case True
    with inv have "buf = []" by (simp add: rechunk_inv_def)
    with True sc i show ?thesis by (simp add: hd_conv_nth)
  next
    case False
    with inv show ?thesis by (simp add: rechunk_inv_def)
  qed
  have cov: "set (covered_indices (take (j + 1) cs)) \<subseteq> set (covered_indices (buf @ [c]))"
  proof -
    have "set (covered_indices (take i cs)) \<subseteq> set (covered_indices buf)"
      using inv by (simp add: rechunk_inv_def)
    moreover have "{start_offset (cs ! i) ..< chunk_end (cs ! j)} = {start_offset c ..< chunk_end c}"
      using sc ec by simp
    moreover have "set (covered_indices (buf @ [c]))
        = set (covered_indices buf) \<union> {start_offset c ..< chunk_end c}"
      unfolding covered_indices_append by (auto simp: set_covered_indices)
    ultimately show ?thesis
      using covered_take_step [OF wf ij j] by blast
  qed
  show ?thesis
    unfolding rechunk_inv_def using j wfb hd ec cov by simp
qed

lemma rechunk_inv_backward:
  assumes wf: "well_formed L cs" and L: "L < SIZE_MOD" and inv: "rechunk_inv L cs i buf"
    and i: "i < length cs" and pos: "0 < i"
  shows "rechunk_inv L cs (i + 1)
           (butlast buf @ [(last buf)\<lparr>length_c :=
              sz_sub (sz_add (start_offset (cs ! i)) (length_c (cs ! i))) (start_offset (last buf))\<rparr>])"
proof -
  let ?cur = "cs ! i" and ?l = "last buf" and ?b = "butlast buf"
  from inv pos have ne: "buf \<noteq> []" and wfbuf: "well_formed L buf"
    and hdb: "start_offset (hd buf) = start_offset (hd cs)"
    and cov0: "set (covered_indices (take i cs)) \<subseteq> set (covered_indices buf)"
    by (simp_all add: rechunk_inv_def)
  from ne have buf: "buf = ?b @ [?l]" by simp
  from wfbuf buf have wfs: "well_formed L (?b @ [?l])" by simp
  then have wfb: "well_formed L ?b" and posl: "0 < length_c ?l"
    and sep: "\<forall>a\<in>set ?b. chunk_end a \<le> start_offset ?l"
    unfolding well_formed_snoc by simp_all
  have l_before: "chunk_end ?l \<le> start_offset ?cur"
    using rechunk_inv_before [OF wf inv i, of ?l] ne by simp
  have end_cur: "chunk_end ?cur \<le> L" and pos_cur: "0 < length_c ?cur"
    using well_formed_nth [OF wf i] by simp_all
  have add: "sz_add (start_offset ?cur) (length_c ?cur) = chunk_end ?cur"
    using end_cur L sz_add_eq [of "start_offset ?cur" "length_c ?cur"] by (simp add: chunk_end_def)
  have start_l: "start_offset ?l < chunk_end ?cur"
    using l_before posl pos_cur by (simp add: chunk_end_def)
  have sub: "sz_sub (chunk_end ?cur) (start_offset ?l) = chunk_end ?cur - start_offset ?l"
    using start_l end_cur L by (intro sz_sub_eq) arith+
  define l' where "l' = ?l\<lparr>length_c := chunk_end ?cur - start_offset ?l\<rparr>"
  have sl': "start_offset l' = start_offset ?l" by (simp add: l'_def)
  have el': "chunk_end l' = chunk_end ?cur" using start_l by (simp add: l'_def chunk_end_def)
  have posl': "0 < length_c l'" using start_l by (simp add: l'_def)
  have wfn: "well_formed L (?b @ [l'])"
    unfolding well_formed_snoc using wfb posl' el' end_cur sep sl' by simp
  have hd: "start_offset (hd (?b @ [l'])) = start_offset (hd cs)"
  proof (cases "?b = []")
    case True
    with buf have "buf = [?l]" by simp
    then have "hd buf = ?l" by (metis list.sel(1))
    with True hdb sl' show ?thesis by simp
  next
    case False
    then have "hd (?b @ [l']) = hd ?b" by simp
    also have "hd ?b = hd buf" using False buf by (metis hd_append2)
    finally show ?thesis using hdb by simp
  qed
  have cov: "set (covered_indices (take (i + 1) cs)) \<subseteq> set (covered_indices (?b @ [l']))"
  proof -
    have "set (covered_indices (?b @ [?l]))
        = set (covered_indices ?b) \<union> {start_offset ?l ..< chunk_end ?l}"
      unfolding covered_indices_append by (auto simp: set_covered_indices)
    then have old: "set (covered_indices buf)
        = set (covered_indices ?b) \<union> {start_offset ?l ..< chunk_end ?l}"
      by (simp only: append_butlast_last_id [OF ne])
    have new: "set (covered_indices (?b @ [l']))
        = set (covered_indices ?b) \<union> {start_offset ?l ..< chunk_end ?cur}"
      unfolding covered_indices_append using sl' el' by (auto simp: set_covered_indices)
    have "{start_offset ?l ..< chunk_end ?l} \<subseteq> {start_offset ?l ..< chunk_end ?cur}"
      using l_before by (auto simp: chunk_end_def)
    moreover have "{start_offset ?cur ..< chunk_end ?cur} \<subseteq> {start_offset ?l ..< chunk_end ?cur}"
      using l_before by (auto simp: chunk_end_def)
    ultimately show ?thesis
      using covered_take_step [OF wf le_refl i] cov0 old new by blast
  qed
  have "rechunk_inv L cs (i + 1) (?b @ [l'])"
    unfolding rechunk_inv_def using i wfn hd el' cov by simp
  then show ?thesis unfolding l'_def add sub .
qed

lemma rechunk_inv_forward:
  assumes wf: "well_formed L cs" and L: "L < SIZE_MOD" and inv: "rechunk_inv L cs i buf"
    and i1: "i + 1 < length cs"
  shows "rechunk_inv L cs (i + 2)
           (buf @ [\<lparr>start_offset = start_offset (cs ! i),
                     length_c = forward_combined (cs ! i) (cs ! (i + 1))\<rparr>])"
proof -
  let ?cur = "cs ! i" and ?nxt = "cs ! (i + 1)"
  have end_n: "chunk_end ?nxt \<le> L" using well_formed_nth(2) [OF wf i1] .
  have add: "sz_add (start_offset ?nxt) (length_c ?nxt) = chunk_end ?nxt"
    using end_n L sz_add_eq [of "start_offset ?nxt" "length_c ?nxt"] by (simp add: chunk_end_def)
  have le: "start_offset ?cur \<le> chunk_end ?nxt"
    using well_formed_nth_le(1) [OF wf _ i1, of i] by (simp add: chunk_end_def)
  have fc: "forward_combined ?cur ?nxt = chunk_end ?nxt - start_offset ?cur"
    unfolding forward_combined_def add using le end_n L by (intro sz_sub_eq) arith+
  define m where "m = \<lparr>start_offset = start_offset ?cur, length_c = forward_combined ?cur ?nxt\<rparr>"
  have "start_offset m = start_offset ?cur" by (simp add: m_def)
  moreover have "chunk_end m = chunk_end ?nxt" using fc le by (simp add: m_def chunk_end_def)
  ultimately have "rechunk_inv L cs (i + 1 + 1) (buf @ [m])"
    using i1 by (intro rechunk_inv_append [OF wf inv]) simp_all
  then show ?thesis by (simp add: m_def)
qed

lemma rechunk_inv_split:
  assumes wf: "well_formed L cs" and L: "L < SIZE_MOD" and inv: "rechunk_inv L cs i buf"
    and i: "i < length cs"
  shows "rechunk_inv L cs (i + 1) (split_loop tx mn mx (cs ! i) buf)"
proof -
  let ?cur = "cs ! i"
  define ps where "ps = split_loop tx mn mx ?cur []"
  have eq: "split_loop tx mn mx ?cur buf = buf @ ps"
    unfolding ps_def by (rule split_loop_append)
  from split_loop_pieces [OF well_formed_nth(2) [OF wf i] L well_formed_nth(1) [OF wf i], of tx mn mx]
  have ne: "ps \<noteq> []" and hdp: "start_offset (hd ps) = start_offset ?cur"
    and lastp: "chunk_end (last ps) = chunk_end ?cur" and wfp: "well_formed L ps"
    and lo: "\<forall>c\<in>set ps. start_offset ?cur \<le> start_offset c"
    and covp: "set (covered_indices ps) = {start_offset ?cur ..< chunk_end ?cur}"
    unfolding ps_def by simp_all
  have sep: "\<forall>a\<in>set buf. \<forall>b\<in>set ps. chunk_end a \<le> start_offset b"
    using rechunk_inv_before [OF wf inv i] lo by fastforce
  have wfn: "well_formed L (buf @ ps)"
    unfolding well_formed_append using inv wfp sep by (simp add: rechunk_inv_def)
  have hd: "start_offset (hd (buf @ ps)) = start_offset (hd cs)"
  proof (cases "i = 0")
    case True
    with inv have "buf = []" by (simp add: rechunk_inv_def)
    with True hdp i show ?thesis by (simp add: hd_conv_nth)
  next
    case False
    with inv show ?thesis by (simp add: rechunk_inv_def)
  qed
  have last: "chunk_end (last (buf @ ps)) = chunk_end ?cur" using ne lastp by simp
  have cov: "set (covered_indices (take (i + 1) cs)) \<subseteq> set (covered_indices (buf @ ps))"
  proof -
    have "set (covered_indices (take i cs)) \<subseteq> set (covered_indices buf)"
      using inv by (simp add: rechunk_inv_def)
    moreover have "set (covered_indices (buf @ ps))
        = set (covered_indices buf) \<union> {start_offset ?cur ..< chunk_end ?cur}"
      unfolding covered_indices_append using covp by simp
    ultimately show ?thesis
      using covered_take_step [OF wf le_refl i] by blast
  qed
  show ?thesis unfolding eq rechunk_inv_def using i wfn hd last cov ne by simp
qed

lemma rechunk_result:
  assumes wf: "well_formed L cs" and L: "L < SIZE_MOD"
  shows "\<exists>out. a_rechunk_sentences tx cs mn mx = Inr out \<and> rechunk_inv L cs (length cs) out"
proof -
  have "\<exists>out k. rechunk_loop tx cs mn mx 0 [] = Inr out \<and> length cs \<le> k \<and> rechunk_inv L cs k out"
  proof (rule rechunk_loop_rule [where I = "rechunk_inv L cs"], goal_cases)
    case 1
    show ?case by (rule rechunk_inv_init)
  next
    case (2 i buf)
    then show ?case by (intro rechunk_inv_append [OF wf]) simp_all
  next
    case (3 i buf)
    then show ?case by (simp add: rechunk_inv_def)
  next
    case (4 i buf)
    then show ?case by (intro rechunk_inv_backward [OF wf L]) simp_all
  next
    case (5 i buf)
    then show ?case by (intro rechunk_inv_forward [OF wf L]) simp_all
  next
    case (6 i buf)
    then show ?case by (intro rechunk_inv_append [OF wf]) simp_all
  next
    case (7 i buf)
    then show ?case by (intro rechunk_inv_split [OF wf L]) simp_all
  qed
  then obtain out k where r: "rechunk_loop tx cs mn mx 0 [] = Inr out" "length cs \<le> k"
    "rechunk_inv L cs k out" by blast
  from r(2,3) have "k = length cs" by (simp add: rechunk_inv_def)
  with r show ?thesis by (auto simp: a_rechunk_sentences_def)
qed

section \<open>Boundaries made by the second pass\<close>

lemmas rechunk_eval = a_rechunk_sentences_def rechunk_loop.simps backward_merge_def
  forward_combined_def split_loop.simps split_step_def find_split_point_def scan_down.simps
  accept_adjusted_def adjust_for_token_boundary_def scan_backward.simps scan_forward.simps
  skip_spaces.simps cstr_def sz_sub_def sz_add_def SIZE_MOD_def Let_def char_class_defs

lemma well_formed_strictly_increasing:
  assumes "well_formed L cs"
  shows "sorted_wrt (\<lambda>a b. start_offset a < start_offset b) cs"
proof -
  have pos: "\<And>a. a \<in> set cs \<Longrightarrow> 0 < length_c a"
    using assms by (simp add: well_formed_def list_all_iff)
  have "sorted_wrt (\<lambda>a b. chunk_end a \<le> start_offset b) cs"
    using assms by (simp add: well_formed_def)
  then show ?thesis
  proof (rule sorted_wrt_mono_rel [rotated])
    fix a b assume "a \<in> set cs" and "chunk_end a \<le> start_offset b"
    with pos [of a] show "start_offset a < start_offset b" by (simp add: chunk_end_def)
  qed
qed


lemma split_loop_nonempty: "split_loop tx mn mx r buf \<noteq> []"
proof -
  have "split_loop tx mn mx r [] \<noteq> []"
  proof (cases "length_c r > mx \<and> split_step tx mn mx r \<noteq> None")
    case False
    then have "\<not> length_c r > mx \<or> split_step tx mn mx r = None" by blast
    then show ?thesis by (simp add: split_loop_stop)
  next
    case True
    then obtain c r' where "split_step tx mn mx r = Some (c, r')" by auto
    with True show ?thesis by (simp add: split_loop_step)
  qed
  then show ?thesis using split_loop_append [of tx mn mx r buf] by simp
qed

lemma split_loop_boundaries:
  assumes "start_offset r < SIZE_MOD"
    and "start_offset r \<in> S \<or> is_whitespace (tx (start_offset r))"
    and "chunk_end_sz r \<in> E \<or> is_whitespace (tx (chunk_end_sz r))"
  shows "\<forall>c\<in>set (split_loop tx mn mx r []). boundaries_ok tx S E c"
  using assms
proof (induction "length_c r" arbitrary: r rule: less_induct)
  case less
  note r = less.prems
  show ?case
  proof (cases "length_c r > mx \<and> split_step tx mn mx r \<noteq> None")
    case False
    then have "\<not> length_c r > mx \<or> split_step tx mn mx r = None" by blast
    then have "split_loop tx mn mx r [] = [r]" by (rule split_loop_stop)
    with r show ?thesis by (simp add: boundaries_ok_def)
  next
    case True
    then obtain c r' where st: "split_step tx mn mx r = Some (c, r')" by auto
    with True have eq: "split_loop tx mn mx r [] = c # split_loop tx mn mx r' []"
      by (intro split_loop_step) auto
    note ss = split_step_Some [OF st]
    let ?e = "sz_add (start_offset r) (length_c r)"
    have e_lt: "?e < SIZE_MOD" by (rule sz_add_less)
    have r'_lt: "start_offset r' < SIZE_MOD" using ss(5) e_lt by simp
    have endc: "chunk_end_sz c = start_offset r'"
    proof -
      have "start_offset c + length_c c = start_offset r'" using ss(1,2,4) by simp
      then show ?thesis using r'_lt by (simp add: chunk_end_sz_def sz_add_eq)
    qed
    have endr': "chunk_end_sz r' = chunk_end_sz r"
    proof -
      have "start_offset r' + length_c r' = ?e" using ss(3,5) by simp
      then show ?thesis using e_lt by (simp add: chunk_end_sz_def sz_add_eq)
    qed
    have okc: "boundaries_ok tx S E c"
      using r(1,2) ss(1,6) endc by (simp add: boundaries_ok_def)
    have dec: "length_c r' < length_c r" using st by (rule split_step_decreases)
    have "\<forall>c\<in>set (split_loop tx mn mx r' []). boundaries_ok tx S E c"
      using r'_lt ss(6) r(3) endr' by (intro less.hyps [OF dec]) simp_all
    with okc show ?thesis unfolding eq by simp
  qed
qed

lemma boundaries_ok_input:
  assumes "\<forall>c\<in>set cs. start_offset c < SIZE_MOD" and "i < length cs"
  shows "boundaries_ok tx (start_offset ` set cs) (chunk_end_sz ` set cs) (cs ! i)"
  using assms by (simp add: boundaries_ok_def)

lemma boundaries_ok_merged:
  assumes "start_offset a < SIZE_MOD"
    and "start_offset a \<in> S \<or> is_whitespace (tx (start_offset a))"
    and "chunk_end_sz b \<in> E"
  shows "boundaries_ok tx S E
           (a\<lparr>length_c := sz_sub (sz_add (start_offset b) (length_c b)) (start_offset a)\<rparr>)"
proof -
  have "sz_add (start_offset a) (sz_sub (sz_add (start_offset b) (length_c b)) (start_offset a))
        = sz_add (start_offset b) (length_c b)"
    using assms(1) sz_add_less by (rule sz_add_sub_cancel)
  then show ?thesis using assms by (simp add: boundaries_ok_def chunk_end_sz_def)
qed

lemma rechunk_boundaries:
  assumes typed: "\<forall>c\<in>set cs. start_offset c < SIZE_MOD"
  shows "\<exists>out. a_rechunk_sentences tx cs mn mx = Inr out
           \<and> (\<forall>c\<in>set out. boundaries_ok tx (start_offset ` set cs) (chunk_end_sz ` set cs) c)"
proof -
  let ?S = "start_offset ` set cs" and ?E = "chunk_end_sz ` set cs"
  have "\<exists>out k. rechunk_loop tx cs mn mx 0 [] = Inr out \<and> length cs \<le> k \<and> boundary_inv tx cs k out"
  proof (rule rechunk_loop_rule [where I = "boundary_inv tx cs"], goal_cases)
    case 1
    show ?case by (simp add: boundary_inv_def)
  next
    case (2 i buf)
    with boundaries_ok_input [OF typed, of i tx] show ?case by (simp add: boundary_inv_def)
  next
    case (3 i buf)
    then show ?case by (simp add: boundary_inv_def)
  next
    case (4 i buf)
    then have l: "boundaries_ok tx ?S ?E (last buf)" by (simp add: boundary_inv_def)
    have "boundaries_ok tx ?S ?E ((last buf)\<lparr>length_c :=
        sz_sub (sz_add (start_offset (cs ! i)) (length_c (cs ! i))) (start_offset (last buf))\<rparr>)"
      using l 4(2) by (intro boundaries_ok_merged) (simp_all add: boundaries_ok_def)
    moreover have "\<forall>c\<in>set (butlast buf). boundaries_ok tx ?S ?E c"
      using 4(1) by (auto simp: boundary_inv_def dest: in_set_butlastD)
    ultimately show ?case by (simp add: boundary_inv_def)
  next
    case (5 i buf)
    have "boundaries_ok tx ?S ?E ((cs ! i)\<lparr>length_c :=
        sz_sub (sz_add (start_offset (cs ! (i + 1))) (length_c (cs ! (i + 1)))) (start_offset (cs ! i))\<rparr>)"
      using typed 5(2,4) by (intro boundaries_ok_merged) simp_all
    moreover have "(cs ! i)\<lparr>length_c :=
        sz_sub (sz_add (start_offset (cs ! (i + 1))) (length_c (cs ! (i + 1)))) (start_offset (cs ! i))\<rparr>
      = \<lparr>start_offset = start_offset (cs ! i),
          length_c = forward_combined (cs ! i) (cs ! (i + 1))\<rparr>"
      by (simp add: forward_combined_def)
    ultimately show ?case using 5(1) by (simp add: boundary_inv_def)
  next
    case (6 i buf)
    with boundaries_ok_input [OF typed, of i tx] show ?case by (simp add: boundary_inv_def)
  next
    case (7 i buf)
    have "\<forall>c\<in>set (split_loop tx mn mx (cs ! i) []). boundaries_ok tx ?S ?E c"
      using typed 7(2) by (intro split_loop_boundaries) simp_all
    moreover have eq: "split_loop tx mn mx (cs ! i) buf = buf @ split_loop tx mn mx (cs ! i) []"
      by (rule split_loop_append)
    ultimately show ?case
      unfolding eq using 7(1) split_loop_nonempty [of tx mn mx "cs ! i" "[]"]
      by (auto simp: boundary_inv_def)
  qed
  then show ?thesis by (auto simp: a_rechunk_sentences_def boundary_inv_def)
qed

lemma rechunk_no_empty_access:
  "\<exists>out. a_rechunk_sentences tx cs mn mx = Inr out \<and> (cs \<noteq> [] \<longrightarrow> out \<noteq> [])"
proof -
  have "\<exists>out k. rechunk_loop tx cs mn mx 0 [] = Inr out \<and> length cs \<le> k
          \<and> (0 < k \<longrightarrow> out \<noteq> [])"
    by (rule rechunk_loop_rule [where I = "\<lambda>i buf. 0 < i \<longrightarrow> buf \<noteq> []"])
      (simp_all add: split_loop_nonempty)
  then obtain out k where r: "rechunk_loop tx cs mn mx 0 [] = Inr out" "length cs \<le> k"
    "0 < k \<longrightarrow> out \<noteq> []" by blast
  from r(2,3) have "cs \<noteq> [] \<longrightarrow> out \<noteq> []" by auto
  with r(1) show ?thesis by (simp add: a_rechunk_sentences_def)
qed

lemma split_loop_length:
  "length (split_loop tx mn mx r buf) \<le> length buf + 1 + (length_c r - mx)"
proof (induction "length_c r" arbitrary: r buf rule: less_induct)
  case less
  show ?case
  proof (cases "length_c r > mx \<and> split_step tx mn mx r \<noteq> None")
    case False
    then have "\<not> length_c r > mx \<or> split_step tx mn mx r = None" by blast
    then have "split_loop tx mn mx r [] = [r]" by (rule split_loop_stop)
    then show ?thesis using split_loop_append [of tx mn mx r buf] by simp
  next
    case True
    then obtain c r' where st: "split_step tx mn mx r = Some (c, r')" by auto
    with True have eq: "split_loop tx mn mx r buf = split_loop tx mn mx r' (buf @ [c])"
      by (simp add: split_loop.simps [of tx mn mx r])
    have dec: "length_c r' < length_c r" using st by (rule split_step_decreases)
    have gt: "mx < length_c r" using True by simp
    have "length (split_loop tx mn mx r' (buf @ [c])) \<le> length buf + 1 + 1 + (length_c r' - mx)"
      using less.hyps [OF dec, of "buf @ [c]"] by simp
    also have "\<dots> \<le> length buf + 1 + (length_c r - mx)" using dec gt by arith
    finally show ?thesis unfolding eq .
  qed
qed

section \<open>The gaps covered by the second pass\<close>




















section \<open>Claims about the second pass\<close>




text \<open>
  Claim C2, as the code has it: every sequence the first pass returns is well formed for
  the length of its text (each chunk has \<open>length > 0\<close> and \<open>start_offset + length \<le> L\<close>, the
  starts are strictly increasing, the ranges do not overlap), and the second pass returns
  a well-formed sequence whenever its input sequence is well formed. That the input
  chunks lie within the text is not enough for the second pass.
\<close>

theorem C2_chunk_sequences_well_formed:
  assumes "strlen s < SIZE_MOD" and "well_formed L chunks" and "L < SIZE_MOD"
  shows "well_formed (strlen s) (a_sentence_chunker (Some s))
         \<and> sorted_wrt (\<lambda>a b. start_offset a < start_offset b) (a_sentence_chunker (Some s))
         \<and> (\<exists>out. a_rechunk_sentences tx chunks min_length max_length = Inr out
                \<and> well_formed L out
                \<and> sorted_wrt (\<lambda>a b. start_offset a < start_offset b) out)"
proof -
  have p1: "well_formed (strlen s) (a_sentence_chunker (Some s))"
  proof (cases "cstr s 0 = CHR 0x00")
    case True
    then show ?thesis by (simp add: a_sentence_chunker_def well_formed_Nil)
  next
    case False
    from sentence_loop_post [OF loop_inv_init assms(1), of "cstr s"] False
    show ?thesis by (simp add: a_sentence_chunker_def loop_post_def)
  qed
  from rechunk_result [OF assms(2,3), of tx min_length max_length]
  obtain out where out: "a_rechunk_sentences tx chunks min_length max_length = Inr out"
    and wf: "well_formed L out" by (auto simp: rechunk_inv_def)
  from p1 out wf well_formed_strictly_increasing [OF p1] well_formed_strictly_increasing [OF wf]
  show ?thesis by blast
qed

theorem C2_witness:
  "strlen ''Hello there. Yo. Bye now.'' < SIZE_MOD
   \<and> a_sentence_chunker (Some ''Hello there. Yo. Bye now.'')
       = [\<lparr>start_offset = 0, length_c = 12\<rparr>, \<lparr>start_offset = 13, length_c = 3\<rparr>,
          \<lparr>start_offset = 17, length_c = 8\<rparr>]
   \<and> well_formed 25 [\<lparr>start_offset = 0, length_c = 12\<rparr>, \<lparr>start_offset = 13, length_c = 3\<rparr>,
          \<lparr>start_offset = 17, length_c = 8\<rparr>]
   \<and> a_rechunk_sentences (cstr ''Hello there. Yo. Bye now.'')
        [\<lparr>start_offset = 0, length_c = 12\<rparr>, \<lparr>start_offset = 13, length_c = 3\<rparr>,
         \<lparr>start_offset = 17, length_c = 8\<rparr>] 5 20
      = Inr [\<lparr>start_offset = 0, length_c = 16\<rparr>, \<lparr>start_offset = 17, length_c = 8\<rparr>]
   \<and> well_formed 25 [\<lparr>start_offset = 0, length_c = 16\<rparr>, \<lparr>start_offset = 17, length_c = 8\<rparr>]"
proof -
  let ?s = "''Hello there. Yo. Bye now.''"
  let ?cs = "[\<lparr>start_offset = 0, length_c = 12\<rparr>, \<lparr>start_offset = 13, length_c = 3\<rparr>,
      \<lparr>start_offset = 17, length_c = 8\<rparr>]"
  have len: "strlen ?s = 25" by (simp add: strlen_def)
  have h1: "strlen ?s < SIZE_MOD" by (simp add: strlen_def SIZE_MOD_def)
  have p1: "a_sentence_chunker (Some ?s) = ?cs" by (simp add: seg_eval)
  have h3: "(25 :: nat) < SIZE_MOD" by (simp add: SIZE_MOD_def)
  have e: "a_rechunk_sentences (cstr ?s) ?cs 5 20
      = Inr [\<lparr>start_offset = 0, length_c = 16\<rparr>, \<lparr>start_offset = 17, length_c = 8\<rparr>]"
    by (simp add: rechunk_eval)
  have h2: "well_formed 25 ?cs" by (simp add: well_formed_def chunk_end_def)
  from C2_chunk_sequences_well_formed [OF h1 h2 h3, of "cstr ?s" 5 20] h1 h2 p1 e show ?thesis by simp
qed

text \<open>
  The two chunks lie within the text \<^verbatim>\<open>abc\<close> but are not in increasing order; the second
  pass returns them as they are, so its output is not strictly increasing, as C2 states
  for every input whose chunks lie within the text.
\<close>

theorem C2_counterexample:
  "list_all (\<lambda>c. start_offset c + length_c c \<le> length ''abc'')
      [\<lparr>start_offset = 2, length_c = 1\<rparr>, \<lparr>start_offset = 0, length_c = 1\<rparr>]
   \<and> a_rechunk_sentences (cstr ''abc'')
        [\<lparr>start_offset = 2, length_c = 1\<rparr>, \<lparr>start_offset = 0, length_c = 1\<rparr>] 0 10
      = Inr [\<lparr>start_offset = 2, length_c = 1\<rparr>, \<lparr>start_offset = 0, length_c = 1\<rparr>]
   \<and> \<not> sorted_wrt (\<lambda>a b. start_offset a < start_offset b)
         [\<lparr>start_offset = 2, length_c = 1\<rparr>, \<lparr>start_offset = 0, length_c = 1\<rparr>]"
  by (simp add: rechunk_eval)

text \<open>
  Claim C6: every boundary of an output chunk of the second pass, its start and its end,
  is a start or an end of an input chunk, or the index of a whitespace byte: a boundary
  made by splitting never has a non-whitespace byte on its right. (The starts of the
  input chunks are \<^verbatim>\<open>size_t\<close> values.)
\<close>

theorem C6_new_boundaries_on_whitespace:
  assumes "\<forall>c\<in>set chunks. start_offset c < SIZE_MOD"
  shows "\<exists>out. a_rechunk_sentences tx chunks min_length max_length = Inr out
           \<and> (\<forall>c\<in>set out.
                 (start_offset c \<in> start_offset ` set chunks \<or> is_whitespace (tx (start_offset c)))
                 \<and> (chunk_end_sz c \<in> chunk_end_sz ` set chunks \<or> is_whitespace (tx (chunk_end_sz c))))"
proof -
  from rechunk_boundaries [OF assms, of tx min_length max_length]
  obtain out where "a_rechunk_sentences tx chunks min_length max_length = Inr out"
    and "\<forall>c\<in>set out. boundaries_ok tx (start_offset ` set chunks) (chunk_end_sz ` set chunks) c"
    by blast
  then show ?thesis by (auto simp: boundaries_ok_def)
qed

theorem C6_witness:
  "a_rechunk_sentences (cstr ''ab cd ef gh'') [\<lparr>start_offset = 0, length_c = 11\<rparr>] 1 3
     = Inr [\<lparr>start_offset = 0, length_c = 2\<rparr>, \<lparr>start_offset = 2, length_c = 3\<rparr>,
            \<lparr>start_offset = 5, length_c = 3\<rparr>, \<lparr>start_offset = 8, length_c = 3\<rparr>]
   \<and> is_whitespace (cstr ''ab cd ef gh'' 2) \<and> is_whitespace (cstr ''ab cd ef gh'' 5)
   \<and> is_whitespace (cstr ''ab cd ef gh'' 8)"
proof -
  let ?cs = "[\<lparr>start_offset = 0, length_c = 11\<rparr>]"
  have h: "\<forall>c\<in>set ?cs. start_offset c < SIZE_MOD" by (simp add: SIZE_MOD_def)
  have e: "a_rechunk_sentences (cstr ''ab cd ef gh'') ?cs 1 3
     = Inr [\<lparr>start_offset = 0, length_c = 2\<rparr>, \<lparr>start_offset = 2, length_c = 3\<rparr>,
            \<lparr>start_offset = 5, length_c = 3\<rparr>, \<lparr>start_offset = 8, length_c = 3\<rparr>]"
    by (simp add: rechunk_eval)
  from C6_new_boundaries_on_whitespace [OF h, of "cstr ''ab cd ef gh''" 1 3] e show ?thesis by simp
qed

text \<open>
  Claim C8: the second pass never reads the last record of an empty buffer, so it always
  returns a sequence; every iteration leaves the buffer non-empty, and for a non-empty
  input the output is non-empty.
\<close>

theorem C8_backward_merge_buffer_nonempty:
  "\<exists>out. a_rechunk_sentences tx chunks min_length max_length = Inr out
          \<and> (chunks \<noteq> [] \<longrightarrow> out \<noteq> [])"
  by (rule rechunk_no_empty_access)

theorem C8_witness:
  "\<exists>out. a_rechunk_sentences (cstr ''Hello there. Yo. Bye now.'')
        [\<lparr>start_offset = 0, length_c = 12\<rparr>, \<lparr>start_offset = 13, length_c = 3\<rparr>,
         \<lparr>start_offset = 17, length_c = 8\<rparr>] 5 20 = Inr out \<and> out \<noteq> []"
  using C8_backward_merge_buffer_nonempty [of "cstr ''Hello there. Yo. Bye now.''"
      "[\<lparr>start_offset = 0, length_c = 12\<rparr>, \<lparr>start_offset = 13, length_c = 3\<rparr>,
         \<lparr>start_offset = 17, length_c = 8\<rparr>]" 5 20]
  by simp

text \<open>
  Claim C9: an accepted split point lies strictly between the start and the end of
  \<open>remaining\<close>, and the new \<open>remaining\<close> is strictly shorter; the splitting loop appends
  at most \<open>1 + (remaining.length - max_length)\<close> records, so it terminates.
\<close>

theorem C9_split_loop_terminates:
  "(\<forall>chunk remaining'. split_step tx min_length max_length remaining = Some (chunk, remaining')
       \<longrightarrow> start_offset remaining < start_offset remaining'
           \<and> start_offset remaining' < sz_add (start_offset remaining) (length_c remaining)
           \<and> length_c remaining' < length_c remaining)
   \<and> length (split_loop tx min_length max_length remaining buf)
       \<le> length buf + 1 + (length_c remaining - max_length)"
proof -
  have "\<forall>chunk remaining'. split_step tx min_length max_length remaining = Some (chunk, remaining')
       \<longrightarrow> start_offset remaining < start_offset remaining'
           \<and> start_offset remaining' < sz_add (start_offset remaining) (length_c remaining)
           \<and> length_c remaining' < length_c remaining"
  proof (intro allI impI)
    fix chunk remaining'
    assume st: "split_step tx min_length max_length remaining = Some (chunk, remaining')"
    from split_step_Some(4,5) [OF st] split_step_decreases [OF st]
    show "start_offset remaining < start_offset remaining'
           \<and> start_offset remaining' < sz_add (start_offset remaining) (length_c remaining)
           \<and> length_c remaining' < length_c remaining" by simp
  qed
  moreover have "length (split_loop tx min_length max_length remaining buf)
       \<le> length buf + 1 + (length_c remaining - max_length)"
    by (rule split_loop_length)
  ultimately show ?thesis by (rule conjI)
qed

theorem C9_witness:
  "split_step (cstr ''ab cd ef gh'') 1 3 \<lparr>start_offset = 0, length_c = 11\<rparr>
     = Some (\<lparr>start_offset = 0, length_c = 2\<rparr>, \<lparr>start_offset = 2, length_c = 9\<rparr>)
   \<and> (0 :: nat) < 2 \<and> (2 :: nat) < sz_add 0 11 \<and> (9 :: nat) < 11
   \<and> length (split_loop (cstr ''ab cd ef gh'') 1 3 \<lparr>start_offset = 0, length_c = 11\<rparr> []) \<le> 9"
proof -
  have e: "split_step (cstr ''ab cd ef gh'') 1 3 \<lparr>start_offset = 0, length_c = 11\<rparr>
     = Some (\<lparr>start_offset = 0, length_c = 2\<rparr>, \<lparr>start_offset = 2, length_c = 9\<rparr>)"
    by (simp add: rechunk_eval)
  from C9_split_loop_terminates [of "cstr ''ab cd ef gh''" 1 3 "\<lparr>start_offset = 0, length_c = 11\<rparr>" "[]"] e
  show ?thesis by simp
qed

end
